theory Spec2Isabelle
  imports Complex_Main "HOL-Library.Log_Nat"
begin

section \<open>Python primitives used by the transcription engine\<close>

text \<open>
  Sample counts and sample indices are Python integers (\<open>int\<close>). Times in seconds are
  Python floats; a float is represented by its exact rational value (\<open>rat\<close>), so every
  comparison below is the comparison of the exact values. The sample rate \<open>sr\<close> is
  positive in every run (\<open>SAMPLE_RATE = 16000\<close>); the theorems state \<open>0 < sr\<close>.
\<close>

definition py_int :: "rat \<Rightarrow> int" where
  \<comment> \<open>\<open>int(x)\<close> on a float: truncation toward zero.\<close>
  "py_int x = (if 0 \<le> x then \<lfloor>x\<rfloor> else \<lceil>x\<rceil>)"

definition round_half_even :: "rat \<Rightarrow> int" where
  \<comment> \<open>\<open>round(x)\<close>: nearest integer, ties to the even one.\<close>
  "round_half_even x =
     (let f = \<lfloor>x\<rfloor>; d = x - of_int f
      in if d < 1 / 2 then f else if 1 / 2 < d then f + 1
         else if even f then f else f + 1)"

definition py_round :: "rat \<Rightarrow> nat \<Rightarrow> rat" where
  \<comment> \<open>\<open>round(x, ndigits)\<close>.\<close>
  "py_round x ndigits = of_int (round_half_even (x * 10 ^ ndigits)) / 10 ^ ndigits"

definition py_floordiv :: "rat \<Rightarrow> rat \<Rightarrow> rat" where
  \<comment> \<open>\<open>x // y\<close> on floats.\<close>
  "py_floordiv x y = of_int \<lfloor>x / y\<rfloor>"

definition py_mod :: "rat \<Rightarrow> rat \<Rightarrow> rat" where
  \<comment> \<open>\<open>x % y\<close> on floats.\<close>
  "py_mod x y = x - y * of_int \<lfloor>x / y\<rfloor>"

datatype py_error = ValueError | DiarizationError string

definition py_range :: "int \<Rightarrow> int \<Rightarrow> py_error + int list" where
  \<comment> \<open>\<open>range(0, stop, step)\<close>; a zero step raises ValueError.\<close>
  "py_range stop step =
     (if step = 0 then Inl ValueError
      else Inr (map (\<lambda>k. int k * step)
                  [0 ..< nat (if 0 < step then (stop + step - 1) div step
                              else (stop + step + 1) div step)]))"

text \<open>
  A tensor of samples is always a contiguous view of the audio buffer; it is modelled by
  its half-open range of absolute sample positions. Slicing clamps indices as Python does.
\<close>

type_synonym span = "int \<times> int"

definition py_len :: "span \<Rightarrow> int" where
  "py_len t = snd t - fst t"

definition clamp_index :: "int \<Rightarrow> int \<Rightarrow> int" where
  "clamp_index n i = (if i < 0 then max 0 (n + i) else min i n)"

definition py_slice :: "span \<Rightarrow> int \<Rightarrow> int \<Rightarrow> span" where
  \<comment> \<open>\<open>t[a:b]\<close>\<close>
  "py_slice t a b =
     (let n = py_len t; a' = clamp_index n a; b' = clamp_index n b
      in (fst t + a', fst t + max a' b'))"

definition py_slice_from :: "span \<Rightarrow> int \<Rightarrow> span" where
  \<comment> \<open>\<open>t[a:]\<close>\<close>
  "py_slice_from t a = (fst t + clamp_index (py_len t) a, snd t)"

definition py_isspace :: "char \<Rightarrow> bool" where
  "py_isspace c = (let k = (of_char c :: nat)
                   in (9 \<le> k \<and> k \<le> 13) \<or> (28 \<le> k \<and> k \<le> 32) \<or> k = 133 \<or> k = 160)"

definition strip :: "string \<Rightarrow> string" where
  "strip s = rev (dropWhile py_isspace (rev (dropWhile py_isspace s)))"

fun join_space :: "string list \<Rightarrow> string" where
  \<comment> \<open>\<open>" ".join(xs)\<close>\<close>
  "join_space [] = []"
| "join_space [x] = x"
| "join_space (x # y # ys) = x @ '' '' @ join_space (y # ys)"

section \<open>Double-precision arithmetic\<close>

text \<open>
  A Python float is an IEEE 754 binary64 number. \<open>fl x\<close> is the double nearest to the
  rational \<open>x\<close>, ties going to the even significand: for \<open>2 ^ e \<le> \<bar>x\<bar> < 2 ^ (e + 1)\<close>
  the doubles are the multiples of \<open>2 ^ (e - 52)\<close>, and below the normal range they are
  the multiples of \<open>2 ^ (- 1074)\<close>. Overflow to infinity lies far beyond the times and
  sample counts of an audio file and is not modelled. A float operation is the exact
  operation followed by \<open>fl\<close>; a decimal literal such as \<open>0.8\<close> denotes \<open>fl (8 / 10)\<close>.

  The arithmetic on speaker turns (diarize.py and the diarized pipeline) is carried out
  with these operations: the gaps between turns, the sample indices \<open>int(seg.start * sr)\<close>,
  the durations, the tail offsets and the rounded segment times. The chunk loops compare
  integer sample counts with \<open>sr * 0.3\<close> and \<open>sr * 0.1\<close>, and the non-diarized pipeline
  and the progress stream divide integers by the sample rate; these are taken exactly.
\<close>

definition pow2 :: "int \<Rightarrow> rat" where
  "pow2 e = 2 powi e"

definition ilog2 :: "rat \<Rightarrow> int" where
  \<comment> \<open>for \<open>0 < x\<close>, the exponent \<open>e\<close> with \<open>2 ^ e \<le> x < 2 ^ (e + 1)\<close>\<close>
  "ilog2 x = (case quotient_of x of (p, q) \<Rightarrow>
       (let d = bitlen p - bitlen q in if pow2 d \<le> x then d else d - 1))"

definition fl :: "rat \<Rightarrow> rat" where
  \<comment> \<open>rounding to the nearest double, ties to even\<close>
  "fl x = (if x = 0 then 0
           else (let e = max (ilog2 \<bar>x\<bar>) (- 1022) - 52
                 in of_int (round_half_even (x / pow2 e)) * pow2 e))"

definition float_of_int :: "int \<Rightarrow> rat" where
  \<comment> \<open>the conversion of an \<open>int\<close> operand in mixed arithmetic\<close>
  "float_of_int i = fl (of_int i)"

definition fadd :: "rat \<Rightarrow> rat \<Rightarrow> rat" where
  "fadd a b = fl (a + b)"

definition fsub :: "rat \<Rightarrow> rat \<Rightarrow> rat" where
  "fsub a b = fl (a - b)"

definition fmul :: "rat \<Rightarrow> rat \<Rightarrow> rat" where
  "fmul a b = fl (a * b)"

definition fdiv :: "rat \<Rightarrow> rat \<Rightarrow> rat" where
  \<comment> \<open>also \<open>a / b\<close> on two integers, which Python rounds correctly\<close>
  "fdiv a b = fl (a / b)"

definition py_round_fl :: "rat \<Rightarrow> nat \<Rightarrow> rat" where
  \<comment> \<open>\<open>round(x, ndigits)\<close> on a float: the decimal rounding of the exact value of \<open>x\<close>,
      returned as the nearest double\<close>
  "py_round_fl x ndigits = fl (py_round x ndigits)"

section \<open>The event stream and the ASR collaborator\<close>

text \<open>
  The ASR model is an opaque collaborator. Its reply to the \<open>k\<close>-th invocation of a run, on
  a given span of the buffer, is either a recognised text or a failure (any exception raised
  by \<open>model.transcribe\<close>). The functions below thread the number of invocations made so
  far and return the events they emit, in order: progress lines, warnings, every call of
  \<open>transcribe_chunk\<close> and every invocation of the model. The temporary WAV file through
  which a chunk is handed to the model is not modelled: creating, writing and removing it
  are taken to succeed. The \<open>eta_seconds\<close> field depends on wall-clock time and is left
  out. Texts are strings of characters with code points below 256.
\<close>

datatype reply = Recognized string | Failed string

type_synonym asr_model = "nat \<Rightarrow> span \<Rightarrow> reply"

datatype warning =
    ChunkFailed span string
  | EmptySegment string rat rat
  | DiarizationUnavailable py_error

datatype event =
    Progress rat string
  | Warning warning
  | WarningsSummary nat "warning list"
  | Error py_error
  | ChunkCall span
  | ModelCall span

definition report_progress :: "rat \<Rightarrow> string \<Rightarrow> event" where
  "report_progress progress step = Progress (py_round progress 3) step"

definition transcribe_chunk ::
  "asr_model \<Rightarrow> span \<Rightarrow> int \<Rightarrow> nat \<Rightarrow> string \<times> nat \<times> event list" where
  "transcribe_chunk model audio_tensor sr n =
     (if of_int (py_len audio_tensor) < of_int sr * (1 / 10 :: rat)
      then ([], n, [ChunkCall audio_tensor])
      else (case model n audio_tensor of
              Recognized text \<Rightarrow>
                (strip text, Suc n, [ChunkCall audio_tensor, ModelCall audio_tensor])
            | Failed e \<Rightarrow>
                ([], Suc n, [ChunkCall audio_tensor, ModelCall audio_tensor,
                             Warning (ChunkFailed audio_tensor e)])))"

section \<open>The non-diarized pipeline\<close>

record segment =
  seg_start :: rat
  seg_end :: rat
  seg_text :: string

fun chunk_bounds :: "int \<Rightarrow> int \<Rightarrow> int \<Rightarrow> int list \<Rightarrow> span list" where
  \<comment> \<open>the loop that collects \<open>chunks\<close>, with its \<open>break\<close>\<close>
  "chunk_bounds sr chunk_samples total_samples [] = []"
| "chunk_bounds sr chunk_samples total_samples (start # rest) =
     (let stop = min (start + chunk_samples) total_samples
      in if of_int (stop - start) < of_int sr * (3 / 10 :: rat) then []
         else (start, stop) # chunk_bounds sr chunk_samples total_samples rest)"

fun transcribe_chunks ::
  "asr_model \<Rightarrow> span \<Rightarrow> int \<Rightarrow> rat \<Rightarrow> rat \<Rightarrow> nat \<Rightarrow> nat \<Rightarrow> span list \<Rightarrow> nat
     \<Rightarrow> string list \<times> segment list \<times> nat \<times> event list" where
  \<comment> \<open>the loop over \<open>enumerate(chunks)\<close>, from index \<open>i\<close> on\<close>
  "transcribe_chunks model audio_tensor sr progress_offset progress_scale total_chunks i [] n =
     ([], [], n, [])"
| "transcribe_chunks model audio_tensor sr progress_offset progress_scale total_chunks i
     ((start_sample, end_sample) # rest) n =
     (let chunk = py_slice audio_tensor start_sample end_sample;
          (text, n1, ev1) = transcribe_chunk model chunk sr n;
          progress = progress_offset
                     + progress_scale * (of_nat (i + 1) / of_nat total_chunks);
          (texts, segments, n2, ev2) =
             transcribe_chunks model audio_tensor sr progress_offset progress_scale
               total_chunks (i + 1) rest n1
      in ((if text \<noteq> [] then [text] else []) @ texts,
          (if text \<noteq> []
           then [\<lparr>seg_start = py_round (of_int start_sample / of_int sr) 2,
                  seg_end = py_round (of_int end_sample / of_int sr) 2,
                  seg_text = text\<rparr>]
           else []) @ segments,
          n2,
          ev1 @ [report_progress progress ''transcribing''] @ ev2))"

definition transcribe_audio ::
  "span \<Rightarrow> int \<Rightarrow> asr_model \<Rightarrow> rat \<Rightarrow> rat \<Rightarrow> int \<Rightarrow> int \<Rightarrow> nat
     \<Rightarrow> (py_error + string \<times> segment list) \<times> nat \<times> event list" where
  "transcribe_audio audio_tensor sr model progress_offset progress_scale
       chunk_duration chunk_overlap n =
     (let total_samples = py_len audio_tensor;
          chunk_samples = chunk_duration * sr;
          step_samples = (chunk_duration - chunk_overlap) * sr
      in if total_samples \<le> chunk_samples then
           (let (text, n1, ev) = transcribe_chunk model audio_tensor sr n
            in (Inr (text,
                     if text \<noteq> []
                     then [\<lparr>seg_start = 0,
                            seg_end = of_int total_samples / of_int sr,
                            seg_text = text\<rparr>]
                     else []),
                n1,
                [report_progress (progress_offset + progress_scale * (1 / 10)) ''transcribing'']
                @ ev
                @ [report_progress (progress_offset + progress_scale) ''transcribing'']))
         else
           (case py_range total_samples step_samples of
              Inl err \<Rightarrow> (Inl err, n, [])
            | Inr starts \<Rightarrow>
                (let chunks = chunk_bounds sr chunk_samples total_samples starts;
                     (texts, segments, n1, ev) =
                        transcribe_chunks model audio_tensor sr progress_offset progress_scale
                          (length chunks) 0 chunks n
                 in (Inr (join_space texts, segments), n1, ev))))"

definition chunk_calls :: "event list \<Rightarrow> span list" where
  "chunk_calls evs = concat (map (\<lambda>e. case e of ChunkCall t \<Rightarrow> [t] | _ \<Rightarrow> []) evs)"

definition model_calls :: "event list \<Rightarrow> span list" where
  "model_calls evs = concat (map (\<lambda>e. case e of ModelCall t \<Rightarrow> [t] | _ \<Rightarrow> []) evs)"

definition warnings :: "event list \<Rightarrow> warning list" where
  "warnings evs = concat (map (\<lambda>e. case e of Warning w \<Rightarrow> [w] | _ \<Rightarrow> []) evs)"

definition progress_values :: "event list \<Rightarrow> rat list" where
  "progress_values evs = concat (map (\<lambda>e. case e of Progress p s \<Rightarrow> [p] | _ \<Rightarrow> []) evs)"

section \<open>Speaker turns (diarize.py)\<close>

text \<open>
  The diarization model is the second opaque collaborator. Its outcome for the run is
  either a failure, with its message, or the raw list of speaker turns it found;
  \<open>diarize\<close> merges and filters these turns.
\<close>

record turn =
  turn_start :: rat
  turn_end :: rat
  speaker_id :: string

fun merge_segments_loop :: "rat \<Rightarrow> turn list \<Rightarrow> turn list \<Rightarrow> turn list" where
  \<comment> \<open>the loop of \<open>_merge_segments\<close> over \<open>segments[1:]\<close>, with \<open>merged\<close> as accumulator\<close>
  "merge_segments_loop gap_threshold merged [] = merged"
| "merge_segments_loop gap_threshold merged (seg # rest) =
     (let prev = last merged
      in if speaker_id seg = speaker_id prev
            \<and> fsub (turn_start seg) (turn_end prev) < gap_threshold
         then merge_segments_loop gap_threshold
                (butlast merged @ [\<lparr>turn_start = turn_start prev, turn_end = turn_end seg,
                                    speaker_id = speaker_id prev\<rparr>]) rest
         else merge_segments_loop gap_threshold (merged @ [seg]) rest)"

definition merge_segments :: "turn list \<Rightarrow> rat \<Rightarrow> turn list" where
  "merge_segments segments gap_threshold =
     (case segments of [] \<Rightarrow> segments
      | first # others \<Rightarrow> merge_segments_loop gap_threshold [first] others)"

definition filter_short :: "turn list \<Rightarrow> rat \<Rightarrow> turn list" where
  "filter_short segments min_duration =
     filter (\<lambda>s. min_duration \<le> fsub (turn_end s) (turn_start s)) segments"

definition diarize :: "string + turn list \<Rightarrow> rat \<Rightarrow> rat \<Rightarrow> py_error + turn list" where
  "diarize outcome gap_threshold min_duration =
     (case outcome of
        Inl msg \<Rightarrow> Inl (DiarizationError msg)
      | Inr segments \<Rightarrow>
          Inr (filter_short (merge_segments segments gap_threshold) min_duration))"

section \<open>The diarized pipeline\<close>

record spk_segment = segment +
  speaker :: string

definition start_sample_of :: "int \<Rightarrow> turn \<Rightarrow> int" where
  \<comment> \<open>\<open>int(seg.start * sr)\<close>\<close>
  "start_sample_of sr seg = py_int (fmul (turn_start seg) (float_of_int sr))"

definition end_sample_of :: "int \<Rightarrow> turn \<Rightarrow> int" where
  \<comment> \<open>\<open>int(seg.end * sr)\<close>\<close>
  "end_sample_of sr seg = py_int (fmul (turn_end seg) (float_of_int sr))"

definition span_duration :: "int \<Rightarrow> turn \<Rightarrow> rat" where
  \<comment> \<open>the variable \<open>duration\<close>: the length of the turn's sample span, in seconds\<close>
  "span_duration sr seg =
     fdiv (of_int (end_sample_of sr seg - start_sample_of sr seg)) (of_int sr)"

fun transcribe_parts ::
  "asr_model \<Rightarrow> span \<Rightarrow> int \<Rightarrow> int \<Rightarrow> int list \<Rightarrow> nat \<Rightarrow> string list \<times> nat \<times> event list" where
  \<comment> \<open>the loop over the chunks of a long turn, with its \<open>break\<close>\<close>
  "transcribe_parts model segment_audio sr chunk_samples [] n = ([], n, [])"
| "transcribe_parts model segment_audio sr chunk_samples (chunk_start # rest) n =
     (let chunk = py_slice segment_audio chunk_start (chunk_start + chunk_samples)
      in if of_int (py_len chunk) < of_int sr * (3 / 10 :: rat) then ([], n, [])
         else (let (text, n1, ev1) = transcribe_chunk model chunk sr n;
                   (parts, n2, ev2) =
                      transcribe_parts model segment_audio sr chunk_samples rest n1
               in ((if text \<noteq> [] then [text] else []) @ parts, n2, ev1 @ ev2)))"

definition first_pass ::
  "asr_model \<Rightarrow> span \<Rightarrow> int \<Rightarrow> int \<Rightarrow> int \<Rightarrow> turn \<Rightarrow> nat
     \<Rightarrow> (py_error + string) \<times> nat \<times> event list" where
  \<comment> \<open>the first transcription of a turn, chunked when the span is long\<close>
  "first_pass model audio_tensor sr chunk_duration chunk_overlap seg n =
     (let segment_audio = py_slice audio_tensor (start_sample_of sr seg) (end_sample_of sr seg);
          duration = span_duration sr seg
      in if of_int (chunk_duration - chunk_overlap) < duration then
           (let chunk_samples = chunk_duration * sr;
                step_s = (chunk_duration - chunk_overlap) * sr
            in case py_range (py_len segment_audio) step_s of
                 Inl err \<Rightarrow> (Inl err, n, [])
               | Inr starts \<Rightarrow>
                   (let (parts, n1, ev) =
                          transcribe_parts model segment_audio sr chunk_samples starts n
                    in (Inr (join_space parts), n1, ev)))
         else (let (text, n1, ev) = transcribe_chunk model segment_audio sr n
               in (Inr text, n1, ev)))"

definition expanded_span :: "span \<Rightarrow> int \<Rightarrow> int \<Rightarrow> turn \<Rightarrow> span" where
  \<comment> \<open>\<open>expanded_audio\<close>\<close>
  "expanded_span audio_tensor sr expansion_pad seg =
     (let total_audio_samples = py_len audio_tensor;
          pad = expansion_pad * sr;
          expanded_start = max 0 (start_sample_of sr seg - pad);
          expanded_end = min total_audio_samples (end_sample_of sr seg + pad)
      in py_slice audio_tensor expanded_start expanded_end)"

definition turn_text ::
  "asr_model \<Rightarrow> span \<Rightarrow> int \<Rightarrow> int \<Rightarrow> int \<Rightarrow> int \<Rightarrow> turn \<Rightarrow> nat
     \<Rightarrow> (py_error + string) \<times> nat \<times> event list" where
  \<comment> \<open>the text of a turn after the retry with expanded context\<close>
  "turn_text model audio_tensor sr chunk_duration chunk_overlap expansion_pad seg n =
     (case first_pass model audio_tensor sr chunk_duration chunk_overlap seg n of
        (Inl err, n1, ev1) \<Rightarrow> (Inl err, n1, ev1)
      | (Inr text, n1, ev1) \<Rightarrow>
          if text = [] \<and> 1 / 2 \<le> span_duration sr seg then
            (let (text2, n2, ev2) =
                   transcribe_chunk model (expanded_span audio_tensor sr expansion_pad seg) sr n1
             in (Inr text2, n2, ev1 @ ev2))
          else (Inr text, n1, ev1))"

definition transcribe_turn ::
  "asr_model \<Rightarrow> span \<Rightarrow> int \<Rightarrow> int \<Rightarrow> int \<Rightarrow> int \<Rightarrow> nat \<Rightarrow> nat \<Rightarrow> turn \<Rightarrow> nat
     \<Rightarrow> (py_error + spk_segment list) \<times> nat \<times> event list" where
  \<comment> \<open>one iteration of the loop over \<open>enumerate(diar_segments)\<close>; returns what it appends to \<open>results\<close>\<close>
  "transcribe_turn model audio_tensor sr chunk_duration chunk_overlap expansion_pad
       total_segments i seg n =
     (case turn_text model audio_tensor sr chunk_duration chunk_overlap expansion_pad seg n of
        (Inl err, n1, ev) \<Rightarrow> (Inl err, n1, ev)
      | (Inr text, n1, ev) \<Rightarrow>
          (let progress = 35 / 100 + 6 / 10 * (of_nat (i + 1) / of_nat total_segments)
           in if text \<noteq> [] then
                (Inr [\<lparr>seg_start = py_round_fl (turn_start seg) 2,
                        seg_end = py_round_fl (turn_end seg) 2,
                        seg_text = text, speaker = speaker_id seg\<rparr>],
                 n1, ev @ [report_progress progress ''transcribing''])
              else if 1 / 2 \<le> span_duration sr seg then
                (Inr [\<lparr>seg_start = py_round_fl (turn_start seg) 2,
                        seg_end = py_round_fl (turn_end seg) 2,
                        seg_text = ''[...]'', speaker = speaker_id seg\<rparr>],
                 n1,
                 ev @ [Warning (EmptySegment (speaker_id seg) (turn_start seg) (turn_end seg)),
                       report_progress progress ''transcribing''])
              else (Inr [], n1, ev @ [report_progress progress ''transcribing''])))"

fun transcribe_turns ::
  "asr_model \<Rightarrow> span \<Rightarrow> int \<Rightarrow> int \<Rightarrow> int \<Rightarrow> int \<Rightarrow> nat \<Rightarrow> nat \<Rightarrow> turn list \<Rightarrow> nat
     \<Rightarrow> (py_error + spk_segment list) \<times> nat \<times> event list" where
  "transcribe_turns model audio_tensor sr chunk_duration chunk_overlap expansion_pad
       total_segments i [] n = (Inr [], n, [])"
| "transcribe_turns model audio_tensor sr chunk_duration chunk_overlap expansion_pad
       total_segments i (seg # rest) n =
     (case transcribe_turn model audio_tensor sr chunk_duration chunk_overlap expansion_pad
             total_segments i seg n of
        (Inl err, n1, ev1) \<Rightarrow> (Inl err, n1, ev1)
      | (Inr appended, n1, ev1) \<Rightarrow>
          (case transcribe_turns model audio_tensor sr chunk_duration chunk_overlap
                  expansion_pad total_segments (i + 1) rest n1 of
             (Inl err, n2, ev2) \<Rightarrow> (Inl err, n2, ev1 @ ev2)
           | (Inr results, n2, ev2) \<Rightarrow> (Inr (appended @ results), n2, ev1 @ ev2)))"

fun transcribe_tail ::
  "asr_model \<Rightarrow> span \<Rightarrow> int \<Rightarrow> int \<Rightarrow> rat \<Rightarrow> int list \<Rightarrow> nat
     \<Rightarrow> spk_segment list \<times> nat \<times> event list" where
  \<comment> \<open>the loop over the chunks of the undetected tail, with its \<open>break\<close>\<close>
  "transcribe_tail model tail_audio sr chunk_samples last_diar_end [] n = ([], n, [])"
| "transcribe_tail model tail_audio sr chunk_samples last_diar_end (chunk_start # rest) n =
     (let chunk = py_slice tail_audio chunk_start (chunk_start + chunk_samples)
      in if of_int (py_len chunk) < of_int sr * (3 / 10 :: rat) then ([], n, [])
         else (let (text, n1, ev1) = transcribe_chunk model chunk sr n;
                   abs_start = fadd last_diar_end (fdiv (of_int chunk_start) (of_int sr));
                   abs_end = fadd last_diar_end
                     (fdiv (of_int (min (chunk_start + chunk_samples) (py_len tail_audio)))
                        (of_int sr));
                   (appended, n2, ev2) =
                      transcribe_tail model tail_audio sr chunk_samples last_diar_end rest n1
               in ((if text \<noteq> []
                    then [\<lparr>seg_start = py_round_fl abs_start 2,
                           seg_end = py_round_fl abs_end 2,
                           seg_text = text, speaker = []\<rparr>]
                    else []) @ appended,
                   n2, ev1 @ ev2)))"

definition last_diar_end_of :: "turn list \<Rightarrow> rat" where
  "last_diar_end_of diar_segments =
     (if diar_segments \<noteq> [] then turn_end (last diar_segments) else 0)"

definition tail_gap_of :: "span \<Rightarrow> int \<Rightarrow> turn list \<Rightarrow> rat" where
  \<comment> \<open>\<open>tail_gap = audio_duration - last_diar_end\<close>\<close>
  "tail_gap_of audio_tensor sr diar_segments =
     fsub (fdiv (of_int (py_len audio_tensor)) (of_int sr)) (last_diar_end_of diar_segments)"

definition tail_fallback ::
  "asr_model \<Rightarrow> span \<Rightarrow> int \<Rightarrow> int \<Rightarrow> int \<Rightarrow> turn list \<Rightarrow> nat
     \<Rightarrow> (py_error + spk_segment list) \<times> nat \<times> event list" where
  \<comment> \<open>the fallback for a tail the diarization missed; returns what it appends to \<open>results\<close>\<close>
  "tail_fallback model audio_tensor sr chunk_duration chunk_overlap diar_segments n =
     (let last_diar_end = last_diar_end_of diar_segments
      in if 10 < tail_gap_of audio_tensor sr diar_segments then
           (let tail_start_sample = py_int (fmul last_diar_end (float_of_int sr));
                tail_audio = py_slice_from audio_tensor tail_start_sample;
                chunk_samples = chunk_duration * sr;
                step_samples = (chunk_duration - chunk_overlap) * sr
            in case py_range (py_len tail_audio) step_samples of
                 Inl err \<Rightarrow> (Inl err, n, [report_progress (95 / 100) ''transcribing''])
               | Inr starts \<Rightarrow>
                   (let (appended, n1, ev) =
                          transcribe_tail model tail_audio sr chunk_samples last_diar_end starts n
                    in (Inr appended, n1, report_progress (95 / 100) ''transcribing'' # ev)))
         else (Inr [], n, []))"

definition merge_one :: "rat \<Rightarrow> spk_segment list \<Rightarrow> spk_segment \<Rightarrow> spk_segment list" where
  \<comment> \<open>one iteration of the final merge loop\<close>
  "merge_one merge_gap merged r =
     (if merged \<noteq> [] \<and> speaker (last merged) = speaker r \<and> speaker r \<noteq> []
         \<and> fsub (seg_start r) (seg_end (last merged)) < merge_gap
      then butlast merged
           @ [(last merged)\<lparr>seg_end := seg_end r,
                             seg_text := seg_text (last merged) @ '' '' @ seg_text r\<rparr>]
      else merged @ [r])"

definition merge_results :: "rat \<Rightarrow> spk_segment list \<Rightarrow> spk_segment list" where
  "merge_results merge_gap results = foldl (merge_one merge_gap) [] results"

definition transcribe_with_diarization ::
  "string + turn list \<Rightarrow> span \<Rightarrow> int \<Rightarrow> asr_model \<Rightarrow> int \<Rightarrow> int \<Rightarrow> rat \<Rightarrow> rat \<Rightarrow> int \<Rightarrow> nat
     \<Rightarrow> (py_error + string \<times> spk_segment list) \<times> nat \<times> event list" where
  "transcribe_with_diarization outcome audio_tensor sr model chunk_duration chunk_overlap
       merge_gap min_segment expansion_pad n =
     (case diarize outcome merge_gap min_segment of
        Inl err \<Rightarrow> (Inl err, n, [report_progress (16 / 100) ''diarizing''])
      | Inr diar_segments \<Rightarrow>
          (let ev0 = [report_progress (16 / 100) ''diarizing'',
                      report_progress (35 / 100) ''diarizing'']
           in case transcribe_turns model audio_tensor sr chunk_duration chunk_overlap
                     expansion_pad (length diar_segments) 0 diar_segments n of
                (Inl err, n1, ev1) \<Rightarrow> (Inl err, n1, ev0 @ ev1)
              | (Inr results, n1, ev1) \<Rightarrow>
                  (case tail_fallback model audio_tensor sr chunk_duration chunk_overlap
                          diar_segments n1 of
                     (Inl err, n2, ev2) \<Rightarrow> (Inl err, n2, ev0 @ ev1 @ ev2)
                   | (Inr appended, n2, ev2) \<Rightarrow>
                       (let merged = merge_results merge_gap (results @ appended)
                        in (Inr (join_space (map seg_text merged), merged),
                            n2, ev0 @ ev1 @ ev2)))))"

section \<open>The run as a whole: the progress stream of \<open>main\<close>\<close>

text \<open>
  \<open>main\<close> is modelled from the point where the input has been validated and decoded up
  to the last progress line; the rendering and writing of the output file emit no event.
  The heartbeat thread of the model load is sequentialised: \<open>ticks\<close> is the number of times
  it wakes up before the load returns. The result is the exit code and the event stream.
\<close>

fun model_heartbeat :: "nat \<Rightarrow> rat \<Rightarrow> event list" where
  "model_heartbeat 0 p = []"
| "model_heartbeat (Suc ticks) p =
     (let p' = min (p + 8 / 1000) (13 / 100)
      in report_progress p' ''loading_model'' # model_heartbeat ticks p')"

definition report_warnings_summary :: "event list \<Rightarrow> event list" where
  \<comment> \<open>the argument is the stream so far; its warnings are the collected \<open>_warnings\<close>\<close>
  "report_warnings_summary evs =
     (let ws = warnings evs
      in if ws \<noteq> [] then [WarningsSummary (length ws) (take 20 ws)] else [])"

definition main ::
  "bool \<Rightarrow> string + turn list \<Rightarrow> span \<Rightarrow> int \<Rightarrow> asr_model \<Rightarrow> nat
     \<Rightarrow> int \<Rightarrow> int \<Rightarrow> rat \<Rightarrow> rat \<Rightarrow> int \<Rightarrow> int \<times> event list" where
  "main diarize_flag outcome audio sr model ticks
        chunk_duration chunk_overlap merge_gap min_segment expansion_pad =
     (let ev0 = [report_progress (1 / 100) ''preparing'',
                 report_progress (3 / 100) ''preparing'',
                 report_progress (5 / 100) ''loading_model'']
                @ model_heartbeat ticks (5 / 100)
                @ [report_progress (14 / 100) ''loading_model''];
          (res, n1, ev1) =
            (if diarize_flag then
               (case transcribe_with_diarization outcome audio sr model chunk_duration
                       chunk_overlap merge_gap min_segment expansion_pad 0 of
                  (Inr r, n1, ev) \<Rightarrow> (Inr (), n1, ev)
                | (Inl e, n1, ev) \<Rightarrow>
                    (case transcribe_audio audio sr model (15 / 100) (78 / 100)
                            chunk_duration chunk_overlap n1 of
                       (r, n2, ev2) \<Rightarrow>
                         (map_sum id (\<lambda>_. ()) r, n2,
                          ev @ [Warning (DiarizationUnavailable e),
                                report_progress (15 / 100) ''transcribing''] @ ev2)))
             else
               (case transcribe_audio audio sr model (15 / 100) (78 / 100)
                       chunk_duration chunk_overlap 0 of
                  (r, n1, ev) \<Rightarrow>
                    (map_sum id (\<lambda>_. ()) r, n1,
                     report_progress (15 / 100) ''transcribing'' # ev)))
      in case res of
           Inl e \<Rightarrow> (1, ev0 @ ev1 @ [Error e])
         | Inr _ \<Rightarrow>
             (0, ev0 @ ev1 @ [report_progress (95 / 100) ''saving'']
                 @ report_warnings_summary (ev0 @ ev1)
                 @ [report_progress 1 ''complete'']))"

section \<open>SRT rendering\<close>

definition digit_char :: "nat \<Rightarrow> char" where
  "digit_char d = char_of (48 + d)"

fun digits10 :: "nat \<Rightarrow> string" where
  \<comment> \<open>\<open>str(n)\<close> for a natural number\<close>
  "digits10 n = (if n < 10 then [digit_char n] else digits10 (n div 10) @ [digit_char (n mod 10)])"

declare digits10.simps [simp del]

definition format_0d :: "nat \<Rightarrow> int \<Rightarrow> string" where
  \<comment> \<open>the format spec \<open>0{width}d\<close>: sign first, then zeros up to the width\<close>
  "format_0d width i =
     (let ds = digits10 (nat \<bar>i\<bar>); sign = (if i < 0 then ''-'' else [])
      in sign @ replicate (width - length sign - length ds) (CHR ''0'') @ ds)"

definition format_ts_srt :: "rat \<Rightarrow> string" where
  "format_ts_srt seconds =
     (let h = py_int (py_floordiv seconds 3600);
          m = py_int (py_floordiv (py_mod seconds 3600) 60);
          s = py_int (py_mod seconds 60);
          ms = round_half_even ((seconds - of_int (py_int seconds)) * 1000)
      in format_0d 2 h @ '':'' @ format_0d 2 m @ '':'' @ format_0d 2 s @ '','' @ format_0d 3 ms)"

text \<open>
  The formatters read the speaker with \<open>seg.get("speaker", "")\<close>; a segment of the
  non-diarized pipeline, which has no such key, is therefore read with an empty speaker.
\<close>

definition without_speaker :: "segment \<Rightarrow> spk_segment" where
  "without_speaker seg = segment.extend seg (spk_segment.fields [])"

fun srt_lines :: "nat \<Rightarrow> spk_segment list \<Rightarrow> bool \<Rightarrow> string list" where
  \<comment> \<open>the loop over \<open>enumerate(segments, 1)\<close>, from index \<open>i\<close> on\<close>
  "srt_lines i [] diarization = []"
| "srt_lines i (seg # rest) diarization =
     [digits10 i,
      format_ts_srt (seg_start seg) @ '' --> '' @ format_ts_srt (seg_end seg),
      (if diarization \<and> speaker seg \<noteq> []
       then ''['' @ speaker seg @ ''] '' @ seg_text seg else seg_text seg),
      []]
     @ srt_lines (i + 1) rest diarization"

fun join_lines :: "string list \<Rightarrow> string" where
  \<comment> \<open>\<open>"\n".join(lines)\<close>\<close>
  "join_lines [] = []"
| "join_lines [x] = x"
| "join_lines (x # y # ys) = x @ [CHR 0x0A] @ join_lines (y # ys)"

definition format_output_srt :: "spk_segment list \<Rightarrow> bool \<Rightarrow> string" where
  "format_output_srt segments diarization = join_lines (srt_lines 1 segments diarization)"

text \<open>
  The reader used to state the round trip: it accepts exactly the shape \<open>HH:MM:SS,mmm\<close>
  (two or more hour digits, two minute digits, two second digits, three millisecond digits)
  and returns the time in seconds.
\<close>

definition digit_val :: "char \<Rightarrow> nat option" where
  "digit_val c = (let k = (of_char c :: nat) in if 48 \<le> k \<and> k \<le> 57 then Some (k - 48) else None)"

fun parse_digits :: "nat \<Rightarrow> string \<Rightarrow> nat option" where
  "parse_digits acc [] = Some acc"
| "parse_digits acc (c # cs) =
     (case digit_val c of None \<Rightarrow> None | Some d \<Rightarrow> parse_digits (10 * acc + d) cs)"

definition parse_ts_srt :: "string \<Rightarrow> rat option" where
  "parse_ts_srt ts =
     (case rev ts of
        f3 # f2 # f1 # c3 # s2 # s1 # c2 # m2 # m1 # c1 # h2 # h1 # hs \<Rightarrow>
          if c3 = CHR '','' \<and> c2 = CHR '':'' \<and> c1 = CHR '':'' then
            (case (parse_digits 0 (rev (h2 # h1 # hs)), parse_digits 0 [m1, m2],
                   parse_digits 0 [s1, s2], parse_digits 0 [f1, f2, f3]) of
               (Some h, Some m, Some s, Some ms) \<Rightarrow>
                 Some (of_nat h * 3600 + of_nat m * 60 + of_nat s + of_nat ms / 1000)
             | _ \<Rightarrow> None)
          else None
      | _ \<Rightarrow> None)"

section \<open>Auxiliary notions used to state the properties\<close>

text \<open>
  The chunk schedule in the words of the specification: the \<open>i\<close>-th range starts at
  \<open>i * (D - O) * sample_rate\<close> and ends at \<open>min (start + D * sample_rate) total_samples\<close>;
  a range is discarded when it is shorter than 0.3 seconds.
\<close>

definition spec_range :: "int \<Rightarrow> int \<Rightarrow> int \<Rightarrow> int \<Rightarrow> nat \<Rightarrow> span" where
  "spec_range sr cd co tot i =
     (int i * ((cd - co) * sr), min (int i * ((cd - co) * sr) + cd * sr) tot)"

definition shorter_than_300ms :: "int \<Rightarrow> span \<Rightarrow> bool" where
  "shorter_than_300ms sr c = (of_int (snd c - fst c) / of_int sr < (3 / 10 :: rat))"

definition long_enough :: "int \<Rightarrow> span \<Rightarrow> bool" where
  \<comment> \<open>the negated \<open>break\<close> test of the chunk loop\<close>
  "long_enough sr c = (\<not> of_int (snd c - fst c) < of_int sr * (3 / 10 :: rat))"

definition start_time :: "int \<Rightarrow> span \<Rightarrow> rat" where
  "start_time sr c = py_round (of_int (fst c) / of_int sr) 2"

definition span_seconds :: "int \<Rightarrow> span \<Rightarrow> rat \<times> rat" where
  "span_seconds sr c = (of_int (fst c) / of_int sr, of_int (snd c) / of_int sr)"

definition rising_within :: "rat \<Rightarrow> rat \<Rightarrow> rat list \<Rightarrow> bool" where
  \<comment> \<open>a non-decreasing list of values between two bounds\<close>
  "rising_within lo hi xs \<longleftrightarrow> sorted xs \<and> (\<forall>x \<in> set xs. lo \<le> x \<and> x \<le> hi)"

text \<open>Two concrete collaborators: one that always recognises the same text, one that always fails.\<close>

definition constant_model :: "string \<Rightarrow> asr_model" where
  "constant_model s k t = Recognized s"

definition failing_model :: "string \<Rightarrow> asr_model" where
  "failing_model e k t = Failed e"

text \<open>Shorthands for turns and speaker-labelled segments, and the merge condition.\<close>

definition mk_turn :: "rat \<Rightarrow> rat \<Rightarrow> string \<Rightarrow> turn" where
  "mk_turn a b s = \<lparr>turn_start = a, turn_end = b, speaker_id = s\<rparr>"

definition mk_segment :: "rat \<Rightarrow> rat \<Rightarrow> string \<Rightarrow> string \<Rightarrow> spk_segment" where
  "mk_segment a b s t = \<lparr>seg_start = a, seg_end = b, seg_text = t, speaker = s\<rparr>"

definition mergeable :: "rat \<Rightarrow> spk_segment \<Rightarrow> spk_segment \<Rightarrow> bool" where
  \<comment> \<open>same speaker, a non-empty label, and a gap below the threshold\<close>
  "mergeable gap prev r \<longleftrightarrow>
     speaker prev = speaker r \<and> speaker r \<noteq> []
       \<and> fsub (seg_start r) (seg_end prev) < gap"









section \<open>Projections of the event stream\<close>

lemma model_calls_simps [simp]:
  "model_calls [] = []"
  "model_calls (Progress p s # evs) = model_calls evs"
  "model_calls (WarningsSummary k ws # evs) = model_calls evs"
  "model_calls (Error err # evs) = model_calls evs"
  "model_calls (Warning w # evs) = model_calls evs"
  "model_calls (ChunkCall t # evs) = model_calls evs"
  "model_calls (ModelCall t # evs) = t # model_calls evs"
  by (simp_all add: model_calls_def)

lemma chunk_calls_simps [simp]:
  "chunk_calls [] = []"
  "chunk_calls (Progress p s # evs) = chunk_calls evs"
  "chunk_calls (WarningsSummary k ws # evs) = chunk_calls evs"
  "chunk_calls (Error err # evs) = chunk_calls evs"
  "chunk_calls (Warning w # evs) = chunk_calls evs"
  "chunk_calls (ChunkCall t # evs) = t # chunk_calls evs"
  "chunk_calls (ModelCall t # evs) = chunk_calls evs"
  by (simp_all add: chunk_calls_def)

lemma warnings_simps [simp]:
  "warnings [] = []"
  "warnings (Progress p s # evs) = warnings evs"
  "warnings (WarningsSummary k ws # evs) = warnings evs"
  "warnings (Error err # evs) = warnings evs"
  "warnings (Warning w # evs) = w # warnings evs"
  "warnings (ChunkCall t # evs) = warnings evs"
  "warnings (ModelCall t # evs) = warnings evs"
  by (simp_all add: warnings_def)

lemma chunk_calls_append [simp]: "chunk_calls (xs @ ys) = chunk_calls xs @ chunk_calls ys"
  by (simp add: chunk_calls_def)
lemma model_calls_append [simp]: "model_calls (xs @ ys) = model_calls xs @ model_calls ys"
  by (simp add: model_calls_def)
lemma warnings_append [simp]: "warnings (xs @ ys) = warnings xs @ warnings ys"
  by (simp add: warnings_def)

lemma chunk_calls_report_progress [simp]:
  "chunk_calls (report_progress p s # evs) = chunk_calls evs"
  by (simp add: report_progress_def)

section \<open>The per-unit transcription\<close>

text \<open>
  Claim C7. \<open>transcribe_chunk\<close> returns empty text without invoking the ASR collaborator
  whenever the slice is shorter than 0.1 seconds. Otherwise it invokes the collaborator
  exactly once; when the collaborator fails, the failure is not propagated (the function
  returns a value on every input): a warning is emitted and the text is empty.
\<close>

theorem transcribe_chunk_guard_and_recovery:
  assumes "0 < sr"
  shows "(of_int (py_len t) / of_int sr < (1 / 10 :: rat) \<longrightarrow>
            transcribe_chunk model t sr n = ([], n, [ChunkCall t]))
       \<and> (\<not> of_int (py_len t) / of_int sr < (1 / 10 :: rat) \<longrightarrow>
            model_calls (snd (snd (transcribe_chunk model t sr n))) = [t]
          \<and> fst (snd (transcribe_chunk model t sr n)) = Suc n
          \<and> (\<forall>e. model n t = Failed e \<longrightarrow>
                fst (transcribe_chunk model t sr n) = []
              \<and> warnings (snd (snd (transcribe_chunk model t sr n))) = [ChunkFailed t e])
          \<and> (\<forall>text. model n t = Recognized text \<longrightarrow>
                fst (transcribe_chunk model t sr n) = strip text
              \<and> warnings (snd (snd (transcribe_chunk model t sr n))) = []))"
  using assms
  by (auto simp: transcribe_chunk_def pos_divide_less_eq split: reply.splits)

theorem transcribe_chunk_guard_and_recovery_witness:
  "transcribe_chunk (failing_model ''boom'') (0, 1599) 16000 0 = ([], 0, [ChunkCall (0, 1599)])
   \<and> model_calls (snd (snd (transcribe_chunk (failing_model ''boom'') (0, 1600) 16000 0)))
        = [(0, 1600)]
   \<and> fst (transcribe_chunk (failing_model ''boom'') (0, 1600) 16000 0) = []
   \<and> warnings (snd (snd (transcribe_chunk (failing_model ''boom'') (0, 1600) 16000 0)))
        = [ChunkFailed (0, 1600) ''boom'']"
  using transcribe_chunk_guard_and_recovery [of 16000 "(0, 1599)" "failing_model ''boom''" 0]
    transcribe_chunk_guard_and_recovery [of 16000 "(0, 1600)" "failing_model ''boom''" 0]
  by (simp add: py_len_def failing_model_def)

section \<open>The chunk schedule of the non-diarized pipeline\<close>

lemma chunk_calls_transcribe_chunk [simp]:
  "chunk_calls (snd (snd (transcribe_chunk model t sr n))) = [t]"
  by (simp add: transcribe_chunk_def split: reply.splits)


lemma chunk_bounds_takeWhile:
  "chunk_bounds sr cs tot xs =
     takeWhile (long_enough sr) (map (\<lambda>s. (s, min (s + cs) tot)) xs)"
  by (induction xs) (simp_all add: Let_def long_enough_def)

lemma chunk_calls_transcribe_chunks:
  "chunk_calls (snd (snd (snd (transcribe_chunks model a sr off sc tc i cs n))))
     = map (\<lambda>(s, e). py_slice a s e) cs"
proof (induction cs arbitrary: i n)
  case Nil
  show ?case by simp
next
  case (Cons c cs)
  obtain s e where c: "c = (s, e)" by (cases c)
  obtain tx n1 ev1 where t: "transcribe_chunk model (py_slice a s e) sr n = (tx, n1, ev1)"
    by (cases "transcribe_chunk model (py_slice a s e) sr n")
  have ev1: "chunk_calls ev1 = [py_slice a s e]"
    using chunk_calls_transcribe_chunk [of model "py_slice a s e" sr n] t by simp
  obtain texts segs n2 ev2 where r:
    "transcribe_chunks model a sr off sc tc (i + 1) cs n1 = (texts, segs, n2, ev2)"
    by (cases "transcribe_chunks model a sr off sc tc (i + 1) cs n1")
  have "chunk_calls ev2 = map (\<lambda>(s, e). py_slice a s e) cs"
    using Cons.IH [of "i + 1" n1] r by simp
  then show ?case
    using c t r ev1 by (simp add: Let_def)
qed

lemma py_slice_whole:
  "0 \<le> s \<Longrightarrow> s \<le> e \<Longrightarrow> e \<le> tot \<Longrightarrow> py_slice (0, tot) s e = (s, e)"
  by (simp add: py_slice_def py_len_def clamp_index_def Let_def)




lemma long_enough_iff:
  "0 < sr \<Longrightarrow> long_enough sr c \<longleftrightarrow> \<not> shorter_than_300ms sr c"
  by (simp add: long_enough_def shorter_than_300ms_def pos_divide_less_eq mult.commute)

lemma py_range_pos:
  "0 < step \<Longrightarrow> py_range stop step =
     Inr (map (\<lambda>k. int k * step) [0 ..< nat ((stop + step - 1) div step)])"
  by (simp add: py_range_def)

lemma range_exhausted:
  assumes "0 < step"
  shows "stop \<le> int (nat ((stop + step - 1) div step)) * step"
proof -
  let ?q = "(stop + step - 1) div step"
  have "stop + step - 1 < (?q + 1) * step"
    using assms by (metis add.commute div_mult_mod_eq mult.commute pos_mod_bound
        add_less_cancel_left distrib_right mult_1)
  then have "stop \<le> ?q * step" by (simp add: algebra_simps)
  also have "\<dots> \<le> int (nat ?q) * step"
    using assms by (simp add: mult_right_mono)
  finally show ?thesis .
qed


lemma chunks_multi:
  assumes sr: "0 < sr" and co: "co < cd" and big: "cd * sr < tot"
  defines "step \<equiv> (cd - co) * sr"
  defines "m \<equiv> nat ((tot + step - 1) div step)"
  defines "xs \<equiv> map (\<lambda>k. spec_range sr cd co tot k) [0 ..< m]"
  shows "fst (transcribe_audio (0, tot) sr model off sc cd co n)
           = Inr (case transcribe_chunks model (0, tot) sr off sc
                    (length (takeWhile (long_enough sr) xs)) 0
                    (takeWhile (long_enough sr) xs) n of
                  (texts, segments, n1, ev) \<Rightarrow> (join_space texts, segments))"
    and "snd (snd (transcribe_audio (0, tot) sr model off sc cd co n))
           = snd (snd (snd (transcribe_chunks model (0, tot) sr off sc
                    (length (takeWhile (long_enough sr) xs)) 0
                    (takeWhile (long_enough sr) xs) n)))"
proof -
  have step: "0 < step" using sr co by (simp add: step_def)
  have r: "py_range tot step = Inr (map (\<lambda>k. int k * step) [0 ..< m])"
    using step by (simp add: py_range_pos m_def)
  have cb: "chunk_bounds sr (cd * sr) tot (map (\<lambda>k. int k * step) [0 ..< m])
              = takeWhile (long_enough sr) xs"
    by (simp add: chunk_bounds_takeWhile xs_def spec_range_def step_def o_def)
  show "fst (transcribe_audio (0, tot) sr model off sc cd co n)
           = Inr (case transcribe_chunks model (0, tot) sr off sc
                    (length (takeWhile (long_enough sr) xs)) 0
                    (takeWhile (long_enough sr) xs) n of
                  (texts, segments, n1, ev) \<Rightarrow> (join_space texts, segments))"
    using big r cb
    by (simp add: transcribe_audio_def py_len_def Let_def step_def [symmetric]
        split: prod.splits)
  show "snd (snd (transcribe_audio (0, tot) sr model off sc cd co n))
           = snd (snd (snd (transcribe_chunks model (0, tot) sr off sc
                    (length (takeWhile (long_enough sr) xs)) 0
                    (takeWhile (long_enough sr) xs) n)))"
    using big r cb
    by (simp add: transcribe_audio_def py_len_def Let_def step_def [symmetric]
        split: prod.splits)
qed


lemma slice_kept_chunks:
  assumes sr: "0 < sr" and co: "co < cd"
  shows "map (\<lambda>(s, e). py_slice (0, tot) s e)
           (takeWhile (long_enough sr) (map (spec_range sr cd co tot) [0 ..< m]))
         = takeWhile (long_enough sr) (map (spec_range sr cd co tot) [0 ..< m])"
proof (rule map_idI)
  fix c
  assume "c \<in> set (takeWhile (long_enough sr) (map (spec_range sr cd co tot) [0 ..< m]))"
  then have ok: "long_enough sr c" and "c \<in> set (map (spec_range sr cd co tot) [0 ..< m])"
    by (auto dest: set_takeWhileD)
  then obtain i where c: "c = spec_range sr cd co tot i" by auto
  have "0 \<le> fst c" using sr co by (simp add: c spec_range_def)
  moreover have "snd c \<le> tot" by (simp add: c spec_range_def)
  moreover have "fst c \<le> snd c"
  proof (rule ccontr)
    assume "\<not> fst c \<le> snd c"
    then have "(of_int (snd c - fst c) :: rat) < 0" by simp
    moreover have "(0::rat) \<le> of_int sr * (3 / 10)" using sr by simp
    ultimately show False using ok by (simp add: long_enough_def)
  qed
  ultimately show "(case c of (s, e) \<Rightarrow> py_slice (0, tot) s e) = c"
    by (cases c) (simp add: py_slice_whole)
qed

text \<open>
  Claim C1. For a buffer with more than \<open>D * sample_rate\<close> samples and \<open>O < D\<close>,
  the ranges handed to \<open>transcribe_chunk\<close> by \<open>transcribe_audio\<close> are exactly the
  ranges of the schedule \<open>spec_range\<close>, taken in order up to, and not including, the first
  one shorter than 0.3 seconds. For a buffer with at most \<open>D * sample_rate\<close> samples
  there is a single range, the whole buffer. In both cases the function returns a result.
\<close>

theorem chunk_schedule:
  assumes sr: "0 < sr" and co: "co < cd"
  shows "(cd * sr < tot \<longrightarrow>
            (\<exists>r. fst (transcribe_audio (0, tot) sr model off sc cd co n) = Inr r)
          \<and> (let rs = chunk_calls (snd (snd (transcribe_audio (0, tot) sr model off sc cd co n)))
             in (\<forall>i < length rs. rs ! i = spec_range sr cd co tot i
                                  \<and> \<not> shorter_than_300ms sr (rs ! i))
              \<and> shorter_than_300ms sr (spec_range sr cd co tot (length rs))))
       \<and> (0 \<le> tot \<and> tot \<le> cd * sr \<longrightarrow>
            (\<exists>r. fst (transcribe_audio (0, tot) sr model off sc cd co n) = Inr r)
          \<and> chunk_calls (snd (snd (transcribe_audio (0, tot) sr model off sc cd co n)))
              = [(0, tot)])"
proof (intro conjI impI)
  assume small: "0 \<le> tot \<and> tot \<le> cd * sr"
  obtain tx n1 ev where t: "transcribe_chunk model (0, tot) sr n = (tx, n1, ev)"
    by (cases "transcribe_chunk model (0, tot) sr n")
  have ev: "chunk_calls ev = [(0, tot)]"
    using chunk_calls_transcribe_chunk [of model "(0, tot)" sr n] t by simp
  show "\<exists>r. fst (transcribe_audio (0, tot) sr model off sc cd co n) = Inr r"
    using small t by (simp add: transcribe_audio_def py_len_def Let_def)
  show "chunk_calls (snd (snd (transcribe_audio (0, tot) sr model off sc cd co n))) = [(0, tot)]"
    using small t ev by (simp add: transcribe_audio_def py_len_def Let_def)
next
  assume big: "cd * sr < tot"
  define step where "step = (cd - co) * sr"
  define m where "m = nat ((tot + step - 1) div step)"
  define xs where "xs = map (spec_range sr cd co tot) [0 ..< m]"
  define rs where "rs = takeWhile (long_enough sr) xs"
  have step: "0 < step" using sr co by (simp add: step_def)
  show "\<exists>r. fst (transcribe_audio (0, tot) sr model off sc cd co n) = Inr r"
    using chunks_multi(1) [OF sr co big] by simp
  have calls: "chunk_calls (snd (snd (transcribe_audio (0, tot) sr model off sc cd co n))) = rs"
    using chunks_multi(2) [OF sr co big, of model off sc n]
    by (simp add: chunk_calls_transcribe_chunks slice_kept_chunks [OF sr co]
        rs_def xs_def m_def step_def)
  have len: "length rs \<le> m"
    using length_takeWhile_le [of "long_enough sr" xs] by (simp add: rs_def xs_def)
  have nth: "rs ! i = spec_range sr cd co tot i" if "i < length rs" for i
  proof -
    have "rs ! i = xs ! i" using that by (simp add: rs_def takeWhile_nth)
    also have "\<dots> = spec_range sr cd co tot i" using that len by (simp add: xs_def)
    finally show ?thesis .
  qed
  have kept: "\<not> shorter_than_300ms sr (rs ! i)" if "i < length rs" for i
  proof -
    have "rs ! i \<in> set rs" using that by simp
    then have "long_enough sr (rs ! i)" by (auto simp: rs_def dest: set_takeWhileD)
    then show ?thesis by (simp add: long_enough_iff [OF sr])
  qed
  have stop: "shorter_than_300ms sr (spec_range sr cd co tot (length rs))"
  proof (cases "length rs < m")
    case True
    then have "length rs < length xs" by (simp add: xs_def)
    then have "\<not> long_enough sr (xs ! length rs)"
      unfolding rs_def by (rule nth_length_takeWhile)
    moreover have "xs ! length rs = spec_range sr cd co tot (length rs)"
      using True by (simp add: xs_def)
    ultimately show ?thesis by (simp add: long_enough_iff [OF sr])
  next
    case False
    then have eq: "length rs = m" using len by simp
    have "tot \<le> int m * step" unfolding m_def by (rule range_exhausted [OF step])
    then have "snd (spec_range sr cd co tot m) - fst (spec_range sr cd co tot m) \<le> 0"
      by (simp add: spec_range_def step_def)
    then have "(of_int (snd (spec_range sr cd co tot m) - fst (spec_range sr cd co tot m)) :: rat)
                 / of_int sr \<le> 0"
      using sr by (simp add: divide_le_0_iff)
    also have "(0::rat) < 3 / 10" by simp
    finally show ?thesis unfolding shorter_than_300ms_def eq .
  qed
  show "let rs = chunk_calls (snd (snd (transcribe_audio (0, tot) sr model off sc cd co n)))
        in (\<forall>i < length rs. rs ! i = spec_range sr cd co tot i
                                  \<and> \<not> shorter_than_300ms sr (rs ! i))
              \<and> shorter_than_300ms sr (spec_range sr cd co tot (length rs))"
    unfolding calls Let_def using nth kept stop by blast
qed

theorem chunk_schedule_witness:
  "(let rs = chunk_calls (snd (snd (transcribe_audio (0, 720000) 16000 (constant_model ''a'') 0 1 20 4 0)))
    in (\<forall>i < length rs. rs ! i = spec_range 16000 20 4 720000 i
                                  \<and> \<not> shorter_than_300ms 16000 (rs ! i))
              \<and> shorter_than_300ms 16000 (spec_range 16000 20 4 720000 (length rs)))
   \<and> chunk_calls (snd (snd (transcribe_audio (0, 100) 16000 (constant_model ''a'') 0 1 20 4 0)))
              = [(0, 100)]"
  using chunk_schedule [of 16000 4 20 720000 "constant_model ''a''" 0 1 0]
    chunk_schedule [of 16000 4 20 100 "constant_model ''a''" 0 1 0]
  by simp

lemma chunks_45s:
  "chunk_calls (snd (snd (transcribe_audio (0, 720000) 16000 model off sc 20 4 n)))
     = [(0, 320000), (256000, 576000), (512000, 720000)]"
proof -
  have m: "nat (((720000::int) + (20 - 4) * 16000 - 1) div ((20 - 4) * 16000)) = 3" by simp
  have u: "[0 ..< 3] = [0, 1, 2::nat]" by (simp add: upt_rec)
  have k: "takeWhile (long_enough 16000) (map (spec_range 16000 20 4 720000) [0 ..< 3])
          = [(0, 320000), (256000, 576000), (512000, 720000)]"
    unfolding u by (simp add: spec_range_def long_enough_def)
  have "chunk_calls (snd (snd (transcribe_audio (0, 720000) 16000 model off sc 20 4 n)))
          = map (\<lambda>(s, e). py_slice (0, 720000) s e)
              (takeWhile (long_enough 16000) (map (spec_range 16000 20 4 720000) [0 ..< 3]))"
    using chunks_multi(2) [of 16000 4 20 720000 model off sc n]
    by (simp only: chunk_calls_transcribe_chunks m)
  also have "\<dots> = [(0, 320000), (256000, 576000), (512000, 720000)]"
    unfolding k by (simp add: py_slice_whole)
  finally show ?thesis .
qed

text \<open>
  Claim C2, as amended. For a 45-second buffer at 16000 Hz with \<open>D = 20\<close> and
  \<open>O = 4\<close> the ranges are \<open>[0,20)\<close>, \<open>[16,36)\<close> and \<open>[32,45)\<close> seconds: the third
  range starts one step of \<open>D - O = 16\<close> seconds after the second, at 32 seconds.
\<close>

theorem example_45s_ranges:
  "map (span_seconds 16000)
     (chunk_calls (snd (snd (transcribe_audio (0, 720000) 16000 model off sc 20 4 n))))
   = [(0, 20), (16, 36), (32, 45)]"
  by (simp add: chunks_45s span_seconds_def)

text \<open>The third range is not \<open>[36,45)\<close>.\<close>

theorem example_45s_ranges_counterexample:
  "map (span_seconds 16000)
     (chunk_calls (snd (snd (transcribe_audio (0, 720000) 16000 (constant_model ''a'') 0 1 20 4 0))))
   \<noteq> [(0, 20), (16, 36), (36, 45)]"
  by (simp add: chunks_45s span_seconds_def)

section \<open>Well-formedness of the non-diarized result\<close>

lemma round_half_even_bounds:
  "of_int (round_half_even q) \<le> q + 1 / 2" "q - 1 / 2 \<le> of_int (round_half_even q)"
proof -
  define f where "f = \<lfloor>q\<rfloor>"
  have f: "of_int f \<le> q" "q < of_int f + 1" unfolding f_def by linarith+
  have r: "round_half_even q =
             (if q - of_int f < 1 / 2 then f else if 1 / 2 < q - of_int f then f + 1
              else if even f then f else f + 1)"
    by (simp add: round_half_even_def Let_def f_def)
  consider "q - of_int f < 1 / 2" | "1 / 2 < q - of_int f" | "q - of_int f = 1 / 2"
    by linarith
  then have "of_int (round_half_even q) \<le> q + 1 / 2 \<and> q - 1 / 2 \<le> of_int (round_half_even q)"
  proof cases
    case 1
    then have "round_half_even q = f" by (simp add: r)
    then show ?thesis using f 1 by simp
  next
    case 2
    then have "round_half_even q = f + 1" by (simp add: r)
    then show ?thesis using f 2 by simp
  next
    case 3
    then have "round_half_even q = f \<or> round_half_even q = f + 1" by (simp add: r)
    then show ?thesis using f 3 by auto
  qed
  then show "of_int (round_half_even q) \<le> q + 1 / 2" "q - 1 / 2 \<le> of_int (round_half_even q)"
    by simp_all
qed

lemma round_half_even_of_int [simp]: "round_half_even (of_int k) = k"
  by (simp add: round_half_even_def)

lemma py_round_of_int [simp]: "py_round (of_int k) 2 = of_int k"
proof -
  have "(of_int k :: rat) * 10 ^ 2 = of_int (k * 100)" by simp
  then have "round_half_even (of_int k * 10 ^ 2) = k * 100"
    by (simp only: round_half_even_of_int)
  then show ?thesis by (simp add: py_round_def)
qed

lemma py_round2_bounds:
  "py_round x 2 \<le> x + 1 / 200" "x - 1 / 200 \<le> py_round x 2"
  using round_half_even_bounds [of "x * 100"]
  by (simp_all add: py_round_def field_simps)

lemma py_round2_apart:
  assumes "3 / 10 \<le> y - x"
  shows "py_round x 2 < py_round y 2"
  using assms py_round2_bounds(1) [of x] py_round2_bounds(2) [of y] by linarith

lemma transcribe_chunk_nonempty:
  "fst (transcribe_chunk model t sr n) \<noteq> [] \<Longrightarrow>
     \<not> of_int (py_len t) < of_int sr * (1 / 10 :: rat)"
  by (auto simp: transcribe_chunk_def)



lemma transcribe_chunks_segments:
  assumes "\<forall>c \<in> set cs. 3 / 10 \<le> (of_int (snd c) - of_int (fst c) :: rat) / of_int sr"
    and "sorted_wrt (<) (map (start_time sr) cs)"
    and "transcribe_chunks model a sr off sc tc i cs n = (texts, segs, n', ev)"
  shows "texts = map seg_text segs
       \<and> (\<forall>g \<in> set segs. seg_text g \<noteq> [] \<and> seg_start g < seg_end g
              \<and> (\<exists>c \<in> set cs. seg_start g = start_time sr c))
       \<and> sorted_wrt (<) (map seg_start segs)"
  using assms
proof (induction cs arbitrary: i n texts segs n' ev)
  case Nil
  then show ?case by simp
next
  case (Cons c cs)
  obtain s e where c: "c = (s, e)" by (cases c)
  obtain tx n1 ev1 where t: "transcribe_chunk model (py_slice a s e) sr n = (tx, n1, ev1)"
    by (cases "transcribe_chunk model (py_slice a s e) sr n")
  obtain texts2 segs2 n2 ev2 where r:
    "transcribe_chunks model a sr off sc tc (i + 1) cs n1 = (texts2, segs2, n2, ev2)"
    by (cases "transcribe_chunks model a sr off sc tc (i + 1) cs n1")
  define g where "g = \<lparr>seg_start = py_round (of_int s / of_int sr) 2,
                         seg_end = py_round (of_int e / of_int sr) 2, seg_text = tx\<rparr>"
  have "transcribe_chunks model a sr off sc tc i (c # cs) n
          = ((if tx \<noteq> [] then [tx] else []) @ texts2,
             (if tx \<noteq> [] then [g] else []) @ segs2, n2,
             ev1 @ [report_progress (off + sc * (of_nat (i + 1) / of_nat tc)) ''transcribing'']
                 @ ev2)"
    using c t r by (simp add: Let_def g_def)
  with Cons.prems(3)
  have texts: "texts = (if tx \<noteq> [] then [tx] else []) @ texts2"
    and segs: "segs = (if tx \<noteq> [] then [g] else []) @ segs2"
    by simp_all
  have IH: "texts2 = map seg_text segs2
       \<and> (\<forall>g \<in> set segs2. seg_text g \<noteq> [] \<and> seg_start g < seg_end g
              \<and> (\<exists>c \<in> set cs. seg_start g = start_time sr c))
       \<and> sorted_wrt (<) (map seg_start segs2)"
    using Cons.IH [OF _ _ r] Cons.prems(1,2) by simp
  have IH_texts: "texts2 = map seg_text segs2" using IH by (rule conjunct1)
  have IH_segs: "\<forall>g \<in> set segs2. seg_text g \<noteq> [] \<and> seg_start g < seg_end g
              \<and> (\<exists>c \<in> set cs. seg_start g = start_time sr c)"
    using IH by (rule conjunct1 [OF conjunct2])
  have IH_sorted: "sorted_wrt (<) (map seg_start segs2)"
    using IH by (rule conjunct2 [OF conjunct2])
  have "3 / 10 \<le> (of_int e - of_int s :: rat) / of_int sr"
    using Cons.prems(1) c by simp
  then have "3 / 10 \<le> (of_int e / of_int sr :: rat) - of_int s / of_int sr"
    by (simp only: diff_divide_distrib)
  then have g_len: "seg_start g < seg_end g"
    unfolding g_def by (simp add: py_round2_apart)
  have g_start: "seg_start g = start_time sr c" by (simp add: g_def start_time_def c)
  have mono: "\<forall>c' \<in> set cs. start_time sr c < start_time sr c'"
    using Cons.prems(2) by simp
  have g_first: "seg_start g < seg_start h" if "h \<in> set segs2" for h
  proof -
    from IH_segs that have "\<exists>c' \<in> set cs. seg_start h = start_time sr c'" by simp
    then obtain c' where c': "c' \<in> set cs" "seg_start h = start_time sr c'" ..
    show ?thesis unfolding g_start c'(2) using mono c'(1) by (rule bspec)
  qed
  have IH2: "\<forall>h \<in> set segs2. seg_text h \<noteq> [] \<and> seg_start h < seg_end h
              \<and> (\<exists>c' \<in> set (c # cs). seg_start h = start_time sr c')"
  proof
    fix h assume h: "h \<in> set segs2"
    from IH_segs h have a: "seg_text h \<noteq> [] \<and> seg_start h < seg_end h
              \<and> (\<exists>c' \<in> set cs. seg_start h = start_time sr c')" by (rule bspec)
    then obtain c' where "c' \<in> set cs" "seg_start h = start_time sr c'" by blast
    then have "\<exists>c' \<in> set (c # cs). seg_start h = start_time sr c'" by auto
    with a show "seg_text h \<noteq> [] \<and> seg_start h < seg_end h
              \<and> (\<exists>c' \<in> set (c # cs). seg_start h = start_time sr c')" by simp
  qed
  show ?case
  proof (cases "tx = []")
    case True
    then have "texts = texts2" "segs = segs2" using texts segs by simp_all
    then show ?thesis using IH_texts IH2 IH_sorted by simp
  next
    case False
    then have ts: "texts = tx # texts2" "segs = g # segs2" using texts segs by simp_all
    have gt: "seg_text g = tx" by (simp add: g_def)
    have "texts = map seg_text segs" using ts IH_texts gt by simp
    moreover have "\<forall>h \<in> set segs. seg_text h \<noteq> [] \<and> seg_start h < seg_end h
              \<and> (\<exists>c' \<in> set (c # cs). seg_start h = start_time sr c')"
      unfolding ts(2) using IH2 False g_len g_start gt by simp
    moreover have "sorted_wrt (<) (map seg_start segs)"
      unfolding ts(2) using IH_sorted g_first by simp
    ultimately show ?thesis by simp
  qed
qed

lemma start_time_spec_range:
  assumes "0 < sr"
  shows "start_time sr (spec_range sr cd co tot i) = of_int (int i * (cd - co))"
proof -
  have "(of_int (int i * ((cd - co) * sr)) :: rat) / of_int sr = of_int (int i * (cd - co))"
    using assms by simp
  then show ?thesis
    by (simp only: start_time_def spec_range_def fst_conv py_round_of_int)
qed

lemma starts_increasing:
  assumes sr: "0 < sr" and co: "co < cd"
  shows "sorted_wrt (<) (map (start_time sr) (map (spec_range sr cd co tot) [0 ..< m]))"
proof -
  have "sorted_wrt (\<lambda>i j. start_time sr (spec_range sr cd co tot i)
                        < start_time sr (spec_range sr cd co tot j)) [0 ..< m]"
  proof (rule sorted_wrt_mono_rel [OF _ sorted_wrt_upt])
    fix i j :: nat
    assume "i < j"
    then have "int i * (cd - co) < int j * (cd - co)" using co by simp
    then show "start_time sr (spec_range sr cd co tot i)
                 < start_time sr (spec_range sr cd co tot j)"
      by (simp only: start_time_spec_range [OF sr] of_int_less_iff)
  qed
  then show ?thesis by (simp add: sorted_wrt_map o_def)
qed

text \<open>
  Claim C10. For every buffer and every behaviour of the ASR collaborator,
  \<open>transcribe_audio\<close> returns a result in which every segment has non-empty text and
  ends after it starts, the segment starts are strictly increasing, and the full text is
  the single-space join of the texts of the returned segments.
\<close>

theorem transcribe_audio_wellformed:
  assumes sr: "0 < sr" and co: "co < cd"
  shows "\<exists>full_text segments.
           fst (transcribe_audio (0, tot) sr model off sc cd co n) = Inr (full_text, segments)
         \<and> (\<forall>g \<in> set segments. seg_text g \<noteq> [] \<and> seg_start g < seg_end g)
         \<and> sorted_wrt (<) (map seg_start segments)
         \<and> full_text = join_space (map seg_text segments)"
proof (cases "tot \<le> cd * sr")
  case True
  obtain tx n1 ev where t: "transcribe_chunk model (0, tot) sr n = (tx, n1, ev)"
    by (cases "transcribe_chunk model (0, tot) sr n")
  define segs where "segs = (if tx \<noteq> []
      then [\<lparr>seg_start = 0, seg_end = of_int tot / of_int sr, seg_text = tx\<rparr>] else [])"
  have res: "fst (transcribe_audio (0, tot) sr model off sc cd co n) = Inr (tx, segs)"
    using True t by (simp add: transcribe_audio_def py_len_def Let_def segs_def)
  have pos: "(0::rat) < of_int tot / of_int sr" if "tx \<noteq> []"
  proof -
    have "fst (transcribe_chunk model (0, tot) sr n) \<noteq> []" using t that by simp
    then have "\<not> of_int (py_len (0, tot)) < of_int sr * (1 / 10 :: rat)"
      by (rule transcribe_chunk_nonempty)
    then have "of_int sr * (1 / 10 :: rat) \<le> of_int tot" by (simp add: py_len_def)
    moreover have "(0::rat) < of_int sr * (1 / 10)" using sr by simp
    ultimately have "(0::rat) < of_int tot" by linarith
    then show ?thesis using sr by simp
  qed
  show ?thesis
  proof (intro exI conjI)
    show "fst (transcribe_audio (0, tot) sr model off sc cd co n) = Inr (tx, segs)" by (rule res)
    show "\<forall>g \<in> set segs. seg_text g \<noteq> [] \<and> seg_start g < seg_end g"
      using pos by (simp add: segs_def)
    show "sorted_wrt (<) (map seg_start segs)" by (simp add: segs_def)
    show "tx = join_space (map seg_text segs)" by (simp add: segs_def)
  qed
next
  case False
  then have big: "cd * sr < tot" by simp
  define step where "step = (cd - co) * sr"
  define m where "m = nat ((tot + step - 1) div step)"
  define xs where "xs = map (spec_range sr cd co tot) [0 ..< m]"
  define cs where "cs = takeWhile (long_enough sr) xs"
  obtain texts segs n1 ev where r:
    "transcribe_chunks model (0, tot) sr off sc (length cs) 0 cs n = (texts, segs, n1, ev)"
    by (cases "transcribe_chunks model (0, tot) sr off sc (length cs) 0 cs n")
  have res: "fst (transcribe_audio (0, tot) sr model off sc cd co n)
               = Inr (join_space texts, segs)"
    using chunks_multi(1) [OF sr co big, of model off sc n] r
    by (simp add: cs_def xs_def m_def step_def)
  have long: "\<forall>c \<in> set cs. 3 / 10 \<le> (of_int (snd c) - of_int (fst c) :: rat) / of_int sr"
  proof
    fix c assume "c \<in> set cs"
    then have "long_enough sr c" by (auto simp: cs_def dest: set_takeWhileD)
    then show "3 / 10 \<le> (of_int (snd c) - of_int (fst c) :: rat) / of_int sr"
      using sr by (simp add: long_enough_def pos_le_divide_eq mult.commute)
  qed
  have sorted: "sorted_wrt (<) (map (start_time sr) cs)"
  proof -
    have "sorted_wrt (<) (map (start_time sr) xs)"
      unfolding xs_def by (rule starts_increasing [OF sr co])
    then have "sorted_wrt (\<lambda>a b. start_time sr a < start_time sr b) xs"
      by (simp add: sorted_wrt_map)
    then have "sorted_wrt (\<lambda>a b. start_time sr a < start_time sr b) cs"
      unfolding cs_def by (rule sorted_wrt_takeWhile)
    then show ?thesis by (simp add: sorted_wrt_map)
  qed
  note inv = transcribe_chunks_segments [OF long sorted r]
  show ?thesis
  proof (intro exI conjI)
    show "fst (transcribe_audio (0, tot) sr model off sc cd co n)
            = Inr (join_space texts, segs)" by (rule res)
    show "\<forall>g \<in> set segs. seg_text g \<noteq> [] \<and> seg_start g < seg_end g"
      using inv by simp
    show "sorted_wrt (<) (map seg_start segs)" using inv by simp
    show "join_space texts = join_space (map seg_text segs)" using inv by simp
  qed
qed

theorem transcribe_audio_wellformed_witness:
  "\<exists>full_text segments.
           fst (transcribe_audio (0, 720000) 16000 (constant_model ''a'') 0 1 20 4 0) = Inr (full_text, segments)
         \<and> (\<forall>g \<in> set segments. seg_text g \<noteq> [] \<and> seg_start g < seg_end g)
         \<and> sorted_wrt (<) (map seg_start segments)
         \<and> full_text = join_space (map seg_text segments)"
  using transcribe_audio_wellformed [of 16000 4 20 720000 "constant_model ''a''" 0 1 0]
  by simp

section \<open>Properties of the double-precision rounding\<close>

lemma pow2_pos [simp]: "0 < pow2 e"
  by (simp add: pow2_def)

lemma pow2_add: "pow2 (a + b) = pow2 a * pow2 b"
  by (simp add: pow2_def power_int_add)

lemma pow2_nat: "0 \<le> e \<Longrightarrow> pow2 e = 2 ^ nat e"
  by (simp add: pow2_def power_int_def)

lemma pow2_mono: "a \<le> b \<Longrightarrow> pow2 a \<le> pow2 b"
  by (simp add: pow2_def power_int_increasing)

lemma ilog2_bounds:
  assumes "0 < x"
  shows "pow2 (ilog2 x) \<le> x \<and> x < pow2 (ilog2 x + 1)"
proof -
  obtain p q where pq: "quotient_of x = (p, q)" by (cases "quotient_of x")
  have q: "0 < q" using quotient_of_denom_pos [OF pq] .
  have x: "x = of_int p / of_int q" using quotient_of_div [OF pq] .
  have p: "0 < p" using assms q unfolding x by (simp add: zero_less_divide_iff)
  define bp where "bp = bitlen p"
  define bq where "bq = bitlen q"
  have bp: "2 ^ nat (bp - 1) \<le> p" "p < 2 ^ nat bp" and bp1: "1 \<le> bp"
    using bitlen_bounds [OF p] p by (auto simp: bp_def bitlen_alt_def)
  have bq: "2 ^ nat (bq - 1) \<le> q" "q < 2 ^ nat bq" and bq1: "1 \<le> bq"
    using bitlen_bounds [OF q] q by (auto simp: bq_def bitlen_alt_def)
  have P: "pow2 (bp - 1) \<le> of_int p" "of_int p < pow2 bp"
  proof -
    have "(of_int (2 ^ nat (bp - 1)) :: rat) \<le> of_int p" using bp(1) by (simp only: of_int_le_iff)
    then show "pow2 (bp - 1) \<le> of_int p" using bp1 by (simp add: pow2_nat)
    have "(of_int p :: rat) < of_int (2 ^ nat bp)" using bp(2) by (simp only: of_int_less_iff)
    then show "of_int p < pow2 bp" using bp1 by (simp add: pow2_nat)
  qed
  have Q: "pow2 (bq - 1) \<le> of_int q" "of_int q < pow2 bq"
  proof -
    have "(of_int (2 ^ nat (bq - 1)) :: rat) \<le> of_int q" using bq(1) by (simp only: of_int_le_iff)
    then show "pow2 (bq - 1) \<le> of_int q" using bq1 by (simp add: pow2_nat)
    have "(of_int q :: rat) < of_int (2 ^ nat bq)" using bq(2) by (simp only: of_int_less_iff)
    then show "of_int q < pow2 bq" using bq1 by (simp add: pow2_nat)
  qed
  have qpos: "(0::rat) < of_int q" using q by simp
  have up: "x < pow2 (bp - bq + 1)"
  proof -
    have "pow2 (bp - bq + 1) * of_int q \<ge> pow2 (bp - bq + 1) * pow2 (bq - 1)"
      using Q(1) by (intro mult_left_mono) (simp_all add: less_imp_le)
    moreover have "pow2 (bp - bq + 1) * pow2 (bq - 1) = pow2 bp"
      by (simp add: pow2_add [symmetric])
    ultimately have "of_int p < pow2 (bp - bq + 1) * of_int q" using P(2) by linarith
    then show ?thesis unfolding x using qpos by (simp add: pos_divide_less_eq)
  qed
  have lo: "pow2 (bp - bq - 1) \<le> x"
  proof -
    have "pow2 (bp - bq - 1) * of_int q \<le> pow2 (bp - bq - 1) * pow2 bq"
      using Q(2) by (intro mult_left_mono) (simp_all add: less_imp_le)
    moreover have "pow2 (bp - bq - 1) * pow2 bq = pow2 (bp - 1)"
      by (simp add: pow2_add [symmetric])
    ultimately have "pow2 (bp - bq - 1) * of_int q \<le> of_int p" using P(1) by linarith
    then show ?thesis unfolding x using qpos by (simp add: pos_le_divide_eq)
  qed
  show ?thesis
  proof (cases "pow2 (bp - bq) \<le> x")
    case True
    then have "ilog2 x = bp - bq" by (simp add: ilog2_def pq bp_def bq_def)
    then show ?thesis using True up by simp
  next
    case False
    then have "ilog2 x = bp - bq - 1" by (simp add: ilog2_def pq bp_def bq_def)
    then show ?thesis using False lo by simp
  qed
qed

text \<open>
  \<open>fl x\<close> is a multiple of the spacing \<open>2 ^ e\<close> of the doubles around \<open>x\<close>, its
  significand has at most 53 bits, and it lies within half a spacing of \<open>x\<close>.
\<close>

lemma fl_grid:
  assumes "x \<noteq> 0"
  shows "fl x = of_int (round_half_even (x / pow2 (max (ilog2 \<bar>x\<bar>) (- 1022) - 52)))
                  * pow2 (max (ilog2 \<bar>x\<bar>) (- 1022) - 52)"
  using assms by (simp add: fl_def Let_def)

lemma fl_nearest:
  "\<bar>fl x - x\<bar> \<le> pow2 (max (ilog2 \<bar>x\<bar>) (- 1022) - 52) / 2"
proof (cases "x = 0")
  case True
  then show ?thesis by (simp add: fl_def less_imp_le)
next
  case False
  define u where "u = pow2 (max (ilog2 \<bar>x\<bar>) (- 1022) - 52)"
  define r where "r = round_half_even (x / u)"
  have u: "0 < u" by (simp add: u_def)
  have f: "fl x = of_int r * u" using fl_grid [OF False] by (simp add: r_def u_def)
  have "of_int r \<le> x / u + 1 / 2" "x / u - 1 / 2 \<le> of_int r"
    unfolding r_def by (rule round_half_even_bounds)+
  then have "\<bar>of_int r - x / u\<bar> \<le> 1 / 2" by linarith
  then have "\<bar>of_int r - x / u\<bar> * u \<le> 1 / 2 * u"
    using u by (intro mult_right_mono) simp_all
  moreover have "\<bar>of_int r - x / u\<bar> * u = \<bar>of_int r * u - x\<bar>"
  proof -
    have "\<bar>of_int r - x / u\<bar> * u = \<bar>(of_int r - x / u) * u\<bar>"
      using u by (simp add: abs_mult)
    also have "(of_int r - x / u) * u = of_int r * u - x"
      using u by (simp add: algebra_simps)
    finally show ?thesis .
  qed
  ultimately show ?thesis unfolding f u_def [symmetric] by simp
qed

lemma fl_significand:
  assumes "x \<noteq> 0"
  shows "\<bar>round_half_even (x / pow2 (max (ilog2 \<bar>x\<bar>) (- 1022) - 52))\<bar> \<le> 2 ^ 53"
proof -
  define l where "l = ilog2 \<bar>x\<bar>"
  define u where "u = pow2 (max l (- 1022) - 52)"
  define r where "r = round_half_even (x / u)"
  have u: "0 < u" by (simp add: u_def)
  have ax: "0 < \<bar>x\<bar>" using assms by simp
  have up: "\<bar>x\<bar> < pow2 (l + 1)" using ilog2_bounds [OF ax] by (simp add: l_def)
  have "pow2 (l - 52) \<le> u" unfolding u_def by (rule pow2_mono) simp
  then have "pow2 (l - 52) * 2 ^ 53 \<le> u * 2 ^ 53" by (intro mult_right_mono) simp_all
  moreover have "pow2 (l - 52) * 2 ^ 53 = pow2 (l + 1)"
  proof -
    have "l - 52 + 53 = l + 1" by simp
    then have a: "pow2 (l - 52) * pow2 53 = pow2 (l + 1)"
      by (simp only: pow2_add [symmetric])
    have b: "pow2 53 = 2 ^ 53" by (simp add: pow2_def)
    show ?thesis using a unfolding b .
  qed
  ultimately have "\<bar>x\<bar> < u * 2 ^ 53" using up by linarith
  then have "\<bar>x\<bar> / u < 2 ^ 53" using u by (simp add: pos_divide_less_eq mult.commute)
  then have xu: "\<bar>x\<bar> / u < 9007199254740992" by simp
  define y where "y = x / u"
  have "\<bar>y\<bar> = \<bar>x\<bar> / u" using u by (simp add: y_def abs_divide)
  then have ay: "\<bar>y\<bar> < 9007199254740992" using xu by simp
  have a': "y < 9007199254740992" "- 9007199254740992 < y"
    using ay by linarith+
  have b': "of_int r \<le> y + 1 / 2" "y - 1 / 2 \<le> of_int r"
    unfolding r_def y_def by (rule round_half_even_bounds)+
  have "(of_int r :: rat) < 9007199254740993" using a'(1) b'(1) by linarith
  then have "(of_int r :: rat) < of_int 9007199254740993" by simp
  then have 1: "r < 9007199254740993" by (simp only: of_int_less_iff)
  have "- 9007199254740993 < (of_int r :: rat)" using a'(2) b'(2) by linarith
  then have "(of_int (- 9007199254740993) :: rat) < of_int r" by simp
  then have 2: "- 9007199254740993 < r" by (simp only: of_int_less_iff)
  show ?thesis using 1 2 unfolding r_def u_def l_def by simp
qed

text \<open>
  The values of some operations, as the Python interpreter computes them: the double
  \<open>0.1\<close>, the sum \<open>0.1 + 0.2\<close>, the difference \<open>1.0 - 0.2\<close>, which is the double \<open>0.8\<close>,
  the rounding of \<open>2.675\<close> to two decimals, and sample indices at 16 kHz. At this
  sample rate the thresholds \<open>sr * 0.3\<close> and \<open>sr * 0.1\<close> of the chunk loops are the
  integers 4800 and 1600.
\<close>

lemma float_values:
  "fl (1 / 10) = 3602879701896397 / 36028797018963968
   \<and> fadd (fl (1 / 10)) (fl (2 / 10)) = 1351079888211149 / 4503599627370496
   \<and> fadd (fl (1 / 10)) (fl (2 / 10)) \<noteq> fl (3 / 10)
   \<and> fsub 1 (fl (2 / 10)) = fl (8 / 10)
   \<and> fsub (fl (58 / 10)) 5 < fl (8 / 10)
   \<and> py_round_fl (fl (2675 / 1000)) 2 = fl (267 / 100)
   \<and> py_int (fmul (fl (6 / 10)) (float_of_int 16000)) = 9600
   \<and> py_int (fmul (fl (3 / 100)) (float_of_int 16000)) = 480
   \<and> \<lfloor>fl (3 / 100) * 16000\<rfloor> = 479
   \<and> fmul (float_of_int 16000) (fl (3 / 10)) = 4800
   \<and> fmul (float_of_int 16000) (fl (1 / 10)) = 1600
   \<and> float_of_int (9007199254740993) = 9007199254740992"
  by code_simp

section \<open>The merge step\<close>

lemma merge_results_snoc:
  "merge_results gap (rs @ [r]) = merge_one gap (merge_results gap rs) r"
  by (simp add: merge_results_def)



lemma gap_5_2: "fsub (fl (26 / 5)) 5 < fl (4 / 5)"
  by code_simp

lemma gap_6: "\<not> fsub 6 5 < fl (4 / 5)"
  by code_simp

text \<open>
  Claim C3. In the merge step of the diarized pipeline a segment merges into the previous
  (last merged) one if and only if both have the same speaker label, the label is non-empty
  and the gap \<open>start - previous.end\<close>, the double-precision difference the program
  computes, is below \<open>merge_gap\<close>. The merged segment takes the later end and the
  space-concatenation of the two texts; otherwise the segment is appended unchanged. For
  the turns \<open>(0,5,A)\<close>, \<open>(5.2,9,A)\<close>, \<open>(9,12,B)\<close> and \<open>merge_gap = 0.8\<close> the first two
  merge into \<open>(0,9,A)\<close> and the third stays separate, in the merge step and also in
  \<open>_merge_segments\<close> of the diarization module.
\<close>

theorem merge_step:
  "(merge_results gap rs \<noteq> [] \<and> mergeable gap (last (merge_results gap rs)) r \<longrightarrow>
      merge_results gap (rs @ [r])
        = butlast (merge_results gap rs)
          @ [(last (merge_results gap rs))
               \<lparr>seg_end := seg_end r,
                seg_text := seg_text (last (merge_results gap rs)) @ '' '' @ seg_text r\<rparr>])
   \<and> (\<not> (merge_results gap rs \<noteq> [] \<and> mergeable gap (last (merge_results gap rs)) r) \<longrightarrow>
      merge_results gap (rs @ [r]) = merge_results gap rs @ [r])
   \<and> merge_results gap [a, b]
        = (if mergeable gap a b
           then [a\<lparr>seg_end := seg_end b, seg_text := seg_text a @ '' '' @ seg_text b\<rparr>]
           else [a, b])
   \<and> merge_results (fl (8 / 10))
        [mk_segment 0 5 ''A'' t1, mk_segment (fl (52 / 10)) 9 ''A'' t2,
         mk_segment 9 12 ''B'' t3]
        = [mk_segment 0 9 ''A'' (t1 @ '' '' @ t2), mk_segment 9 12 ''B'' t3]
   \<and> merge_segments
        [mk_turn 0 5 ''A'', mk_turn (fl (52 / 10)) 9 ''A'', mk_turn 9 12 ''B''] (fl (8 / 10))
        = [mk_turn 0 9 ''A'', mk_turn 9 12 ''B'']"
proof (intro conjI impI)
  show "merge_results gap (rs @ [r]) = merge_results gap rs @ [r]"
    if "\<not> (merge_results gap rs \<noteq> [] \<and> mergeable gap (last (merge_results gap rs)) r)"
    using that unfolding merge_results_snoc by (auto simp: merge_one_def mergeable_def)
  show "merge_results gap (rs @ [r])
        = butlast (merge_results gap rs)
          @ [(last (merge_results gap rs))
               \<lparr>seg_end := seg_end r,
                seg_text := seg_text (last (merge_results gap rs)) @ '' '' @ seg_text r\<rparr>]"
    if "merge_results gap rs \<noteq> [] \<and> mergeable gap (last (merge_results gap rs)) r"
    using that unfolding merge_results_snoc by (simp add: merge_one_def mergeable_def)
  show "merge_results gap [a, b]
        = (if mergeable gap a b
           then [a\<lparr>seg_end := seg_end b, seg_text := seg_text a @ '' '' @ seg_text b\<rparr>]
           else [a, b])"
    by (simp add: merge_results_def merge_one_def mergeable_def)
  show "merge_results (fl (8 / 10))
        [mk_segment 0 5 ''A'' t1, mk_segment (fl (52 / 10)) 9 ''A'' t2,
         mk_segment 9 12 ''B'' t3]
        = [mk_segment 0 9 ''A'' (t1 @ '' '' @ t2), mk_segment 9 12 ''B'' t3]"
    by (simp add: merge_results_def merge_one_def mk_segment_def gap_5_2)
  show "merge_segments
        [mk_turn 0 5 ''A'', mk_turn (fl (52 / 10)) 9 ''A'', mk_turn 9 12 ''B''] (fl (8 / 10))
        = [mk_turn 0 9 ''A'', mk_turn 9 12 ''B'']"
    by (simp add: merge_segments_def mk_turn_def gap_5_2)
qed

theorem merge_step_witness:
  "merge_results (fl (8 / 10))
     ([mk_segment 0 5 ''A'' ''a''] @ [mk_segment (fl (52 / 10)) 9 ''A'' ''b''])
     = butlast (merge_results (fl (8 / 10)) [mk_segment 0 5 ''A'' ''a''])
          @ [(last (merge_results (fl (8 / 10)) [mk_segment 0 5 ''A'' ''a'']))
               \<lparr>seg_end := seg_end (mk_segment (fl (52 / 10)) 9 ''A'' ''b''),
                seg_text :=
                  seg_text (last (merge_results (fl (8 / 10)) [mk_segment 0 5 ''A'' ''a'']))
                  @ '' '' @ seg_text (mk_segment (fl (52 / 10)) 9 ''A'' ''b'')\<rparr>]
   \<and> merge_results (fl (8 / 10)) ([mk_segment 0 5 ''A'' ''a''] @ [mk_segment 6 9 ''A'' ''b''])
     = merge_results (fl (8 / 10)) [mk_segment 0 5 ''A'' ''a''] @ [mk_segment 6 9 ''A'' ''b'']"
proof -
  have m: "merge_results (fl (8 / 10)) [mk_segment 0 5 ''A'' ''a''] = [mk_segment 0 5 ''A'' ''a'']"
    by (simp add: merge_results_def merge_one_def)
  have 1: "merge_results (fl (8 / 10)) [mk_segment 0 5 ''A'' ''a''] \<noteq> []
           \<and> mergeable (fl (8 / 10))
                (last (merge_results (fl (8 / 10)) [mk_segment 0 5 ''A'' ''a'']))
                (mk_segment (fl (52 / 10)) 9 ''A'' ''b'')"
    unfolding m by (simp add: mergeable_def mk_segment_def gap_5_2)
  have 2: "\<not> (merge_results (fl (8 / 10)) [mk_segment 0 5 ''A'' ''a''] \<noteq> []
           \<and> mergeable (fl (8 / 10))
                (last (merge_results (fl (8 / 10)) [mk_segment 0 5 ''A'' ''a'']))
                (mk_segment 6 9 ''A'' ''b''))"
    unfolding m by (simp add: mergeable_def mk_segment_def gap_6)
  show ?thesis
    using merge_step [of "fl (8 / 10)" "[mk_segment 0 5 ''A'' ''a'']"
                         "mk_segment (fl (52 / 10)) 9 ''A'' ''b''"]
      merge_step [of "fl (8 / 10)" "[mk_segment 0 5 ''A'' ''a'']" "mk_segment 6 9 ''A'' ''b''"]
      1 2 by blast
qed

text \<open>
  The gap is the rounded difference, not the exact one. After a turn ending at \<open>0.2\<close> a
  turn of the same speaker starting at \<open>1.0\<close> is not merged at \<open>merge_gap = 0.8\<close>, because
  \<open>1.0 - 0.2\<close> is the double \<open>0.8\<close>, although the exact difference of the two doubles is
  smaller than the double \<open>0.8\<close>; and after a turn ending at \<open>5.0\<close> a turn starting at
  \<open>5.8\<close> is merged, because \<open>5.8 - 5.0\<close> is a double below \<open>0.8\<close>, although the exact
  difference of the decimals is not below \<open>0.8\<close>.
\<close>

lemma merge_gap_rounding:
  "\<not> mergeable (fl (8 / 10)) (mk_segment 0 (fl (2 / 10)) ''A'' ''a'') (mk_segment 1 2 ''A'' ''b'')
   \<and> 1 - fl (2 / 10) < fl (8 / 10)
   \<and> mergeable (fl (8 / 10)) (mk_segment 0 5 ''A'' ''a'') (mk_segment (fl (58 / 10)) 6 ''A'' ''b'')
   \<and> \<not> (58 / 10 - 5 < (8 / 10 :: rat))
   \<and> merge_segments [mk_turn 0 (fl (2 / 10)) ''A'', mk_turn 1 2 ''A''] (fl (8 / 10))
       = [mk_turn 0 (fl (2 / 10)) ''A'', mk_turn 1 2 ''A'']
   \<and> merge_segments [mk_turn 0 5 ''A'', mk_turn (fl (58 / 10)) 6 ''A''] (fl (8 / 10))
       = [mk_turn 0 6 ''A'']"
  by code_simp

section \<open>The tail fallback\<close>















section \<open>Turns without recognised text\<close>

lemma warnings_report_progress [simp]:
  "warnings (report_progress p s # evs) = warnings evs"
  by (simp add: report_progress_def)




lemma sample_spans_16k:
  "start_sample_of 16000 (mk_turn (fl (1 / 10)) (fl (6 / 10)) ''A'') = 1600
   \<and> end_sample_of 16000 (mk_turn (fl (1 / 10)) (fl (6 / 10)) ''A'') = 9600
   \<and> span_duration 16000 (mk_turn (fl (1 / 10)) (fl (6 / 10)) ''A'') = 1 / 2
   \<and> start_sample_of 16000 (mk_turn (fl (3 / 100)) 1 ''A'') = 480
   \<and> start_sample_of 16000 (mk_turn (fl (151 / 100)) (fl (201 / 100)) ''A'') = 24160
   \<and> end_sample_of 16000 (mk_turn (fl (151 / 100)) (fl (201 / 100)) ''A'') = 32159
   \<and> span_duration 16000 (mk_turn (fl (151 / 100)) (fl (201 / 100)) ''A'') < 1 / 2"
  by code_simp




section \<open>The expansion retry\<close>




section \<open>The progress stream\<close>

lemma progress_values_simps [simp]:
  "progress_values [] = []"
  "progress_values (Progress p s # evs) = p # progress_values evs"
  "progress_values (Warning w # evs) = progress_values evs"
  "progress_values (WarningsSummary k ws # evs) = progress_values evs"
  "progress_values (Error err # evs) = progress_values evs"
  "progress_values (ChunkCall t # evs) = progress_values evs"
  "progress_values (ModelCall t # evs) = progress_values evs"
  by (simp_all add: progress_values_def)

lemma progress_values_append [simp]:
  "progress_values (xs @ ys) = progress_values xs @ progress_values ys"
  by (simp add: progress_values_def)

lemma progress_values_report_progress [simp]:
  "progress_values (report_progress p s # evs) = py_round p 3 # progress_values evs"
  by (simp add: report_progress_def)

lemma py_round_16: "py_round (4 / 25) 3 = 4 / 25"
  by code_simp

lemma py_round_15: "py_round (3 / 20) 3 = 3 / 20"
  by code_simp

lemma not_sorted_drop:
  "\<not> (a::rat) \<le> b \<Longrightarrow> \<not> sorted (xs @ a # b # ys)"
  by (auto simp: sorted_append)

text \<open>
  On every path but the fallback the progress values are non-decreasing: the prefix up to
  the model load stays within \<open>[0.01, 0.14]\<close>, the non-diarized pipeline within
  \<open>[0.15, 0.93]\<close>, the diarized pipeline within \<open>[0.16, 0.95]\<close>, and the run closes with
  0.95 and 1. The stream of a run is sorted exactly when the run does not fall back from a
  failed diarized pipeline.
\<close>

lemma round_half_even_mono:
  assumes "x \<le> y"
  shows "round_half_even x \<le> round_half_even y"
proof (cases "\<lfloor>x\<rfloor> = \<lfloor>y\<rfloor>")
  case True
  have "x - of_int \<lfloor>x\<rfloor> \<le> y - of_int \<lfloor>x\<rfloor>" using assms by simp
  then show ?thesis
    by (auto simp: round_half_even_def Let_def True [symmetric])
next
  case False
  have "\<lfloor>x\<rfloor> \<le> \<lfloor>y\<rfloor>" using assms by (rule floor_mono)
  then have lt: "\<lfloor>x\<rfloor> + 1 \<le> \<lfloor>y\<rfloor>" using False by simp
  have "round_half_even x \<le> \<lfloor>x\<rfloor> + 1"
    by (simp add: round_half_even_def Let_def)
  moreover have "\<lfloor>y\<rfloor> \<le> round_half_even y"
    by (simp add: round_half_even_def Let_def)
  ultimately show ?thesis using lt by linarith
qed

lemma py_round_mono: "x \<le> y \<Longrightarrow> py_round x k \<le> py_round y k"
proof -
  assume "x \<le> y"
  then have "x * 10 ^ k \<le> y * 10 ^ k" by (simp add: mult_right_mono)
  then have "round_half_even (x * 10 ^ k) \<le> round_half_even (y * 10 ^ k)"
    by (rule round_half_even_mono)
  then have "(of_int (round_half_even (x * 10 ^ k)) :: rat) \<le> of_int (round_half_even (y * 10 ^ k))"
    by (simp only: of_int_le_iff)
  then show ?thesis by (simp add: py_round_def divide_right_mono)
qed

lemma progress_values_transcribe_chunk [simp]:
  "progress_values (snd (snd (transcribe_chunk model t sr n))) = []"
  by (simp add: transcribe_chunk_def split: reply.splits)

lemma progress_values_transcribe_chunks:
  "progress_values (snd (snd (snd (transcribe_chunks model a sr off sc tc i cs n))))
     = map (\<lambda>j. py_round (off + sc * (of_nat (j + 1) / of_nat tc)) 3) [i ..< i + length cs]"
proof (induction cs arbitrary: i n)
  case Nil
  show ?case by simp
next
  case (Cons c cs)
  obtain s e where c: "c = (s, e)" by (cases c)
  obtain tx n1 ev1 where t: "transcribe_chunk model (py_slice a s e) sr n = (tx, n1, ev1)"
    by (cases "transcribe_chunk model (py_slice a s e) sr n")
  have ev1: "progress_values ev1 = []"
    using progress_values_transcribe_chunk [of model "py_slice a s e" sr n] t by simp
  obtain texts segs n2 ev2 where r:
    "transcribe_chunks model a sr off sc tc (i + 1) cs n1 = (texts, segs, n2, ev2)"
    by (cases "transcribe_chunks model a sr off sc tc (i + 1) cs n1")
  have ev2: "progress_values ev2
      = map (\<lambda>j. py_round (off + sc * (of_nat (j + 1) / of_nat tc)) 3) [i + 1 ..< i + 1 + length cs]"
    using Cons.IH [of "i + 1" n1] r by simp
  have "progress_values (snd (snd (snd (transcribe_chunks model a sr off sc tc i (c # cs) n))))
      = py_round (off + sc * (of_nat (i + 1) / of_nat tc)) 3 # progress_values ev2"
    using c t r ev1 by (simp add: Let_def)
  also have "\<dots> = map (\<lambda>j. py_round (off + sc * (of_nat (j + 1) / of_nat tc)) 3)
                      (i # [i + 1 ..< i + 1 + length cs])"
    unfolding ev2 by simp
  also have "i # [i + 1 ..< i + 1 + length cs] = [i ..< i + length (c # cs)]"
    by (simp add: upt_rec)
  finally show ?case .
qed

lemma rising_within_Nil [simp]: "rising_within lo hi []"
  by (simp add: rising_within_def)

lemma rising_within_single: "lo \<le> x \<Longrightarrow> x \<le> hi \<Longrightarrow> rising_within lo hi [x]"
  by (simp add: rising_within_def)

lemma rising_within_append:
  assumes "rising_within a b xs" "rising_within c d ys" "a \<le> b" "b \<le> c" "c \<le> d"
  shows "rising_within a d (xs @ ys)"
proof -
  have xs: "sorted xs" "\<And>x. x \<in> set xs \<Longrightarrow> a \<le> x \<and> x \<le> b"
    and ys: "sorted ys" "\<And>y. y \<in> set ys \<Longrightarrow> c \<le> y \<and> y \<le> d"
    using assms(1,2) by (simp_all add: rising_within_def)
  have "x \<le> y" if "x \<in> set xs" "y \<in> set ys" for x y
    using xs(2) [OF that(1)] ys(2) [OF that(2)] assms(4) by linarith
  then have "sorted (xs @ ys)" using xs(1) ys(1) by (simp add: sorted_append)
  moreover have "a \<le> x \<and> x \<le> d" if "x \<in> set (xs @ ys)" for x
  proof (cases "x \<in> set xs")
    case True
    then show ?thesis using xs(2) [OF True] assms(4,5) by linarith
  next
    case False
    then have "x \<in> set ys" using that by simp
    then show ?thesis using ys(2) [of x] assms(3,4) by linarith
  qed
  ultimately show ?thesis by (simp add: rising_within_def)
qed

lemma rising_within_widen:
  "rising_within a b xs \<Longrightarrow> a' \<le> a \<Longrightarrow> b \<le> b' \<Longrightarrow> rising_within a' b' xs"
  unfolding rising_within_def by force

lemma rising_within_sorted: "rising_within a b xs \<Longrightarrow> sorted xs"
  by (simp add: rising_within_def)

lemma rising_within_linear:
  assumes sc: "0 \<le> sc" and k: "k \<le> tc"
  shows "rising_within (py_round off 3) (py_round (off + sc) 3)
           (map (\<lambda>j. py_round (off + sc * (of_nat (j + 1) / of_nat tc)) 3) [i ..< k])"
proof -
  let ?g = "\<lambda>j. py_round (off + sc * (of_nat (j + 1) / of_nat tc)) 3"
  have mono: "?g j \<le> ?g j'" if "j \<le> j'" for j j'
  proof (rule py_round_mono)
    have "(of_nat (j + 1) :: rat) / of_nat tc \<le> of_nat (j' + 1) / of_nat tc"
      using that by (intro divide_right_mono) simp_all
    then have "sc * (of_nat (j + 1) / of_nat tc) \<le> sc * (of_nat (j' + 1) / of_nat tc)"
      using sc by (rule mult_left_mono)
    then show "off + sc * (of_nat (j + 1) / of_nat tc) \<le> off + sc * (of_nat (j' + 1) / of_nat tc)"
      by (rule add_left_mono)
  qed
  have "sorted_wrt (\<lambda>a b. ?g a \<le> ?g b) [i ..< k]"
  proof (rule sorted_wrt_mono_rel [OF _ sorted_upt])
    fix x y :: nat
    assume "x \<le> y"
    then show "?g x \<le> ?g y" by (rule mono)
  qed
  then have "sorted (map ?g [i ..< k])" by (simp only: sorted_map)
  moreover have "py_round off 3 \<le> ?g j \<and> ?g j \<le> py_round (off + sc) 3" if "j < k" for j
  proof
    have "0 \<le> sc * (of_nat (j + 1) / of_nat tc)" using sc by simp
    then show "py_round off 3 \<le> ?g j" by (intro py_round_mono) simp
    have "(of_nat (j + 1) :: rat) \<le> of_nat tc" using that k by simp
    moreover have "(0::rat) < of_nat tc" using that k by simp
    ultimately have "(of_nat (j + 1) :: rat) / of_nat tc \<le> 1" by (simp add: pos_divide_le_eq)
    then have "sc * (of_nat (j + 1) / of_nat tc) \<le> sc * 1"
      using sc by (intro mult_left_mono) simp_all
    then show "?g j \<le> py_round (off + sc) 3" by (intro py_round_mono) simp
  qed
  ultimately show ?thesis by (auto simp: rising_within_def)
qed

lemma transcribe_audio_progress:
  assumes sc: "0 \<le> sc"
  shows "rising_within (py_round off 3) (py_round (off + sc) 3)
           (progress_values (snd (snd (transcribe_audio a sr model off sc cd co n))))"
proof (cases "py_len a \<le> cd * sr")
  case True
  obtain tx n1 ev where t: "transcribe_chunk model a sr n = (tx, n1, ev)"
    by (cases "transcribe_chunk model a sr n")
  have ev: "progress_values ev = []"
    using progress_values_transcribe_chunk [of model a sr n] t by simp
  have pv: "progress_values (snd (snd (transcribe_audio a sr model off sc cd co n)))
          = [py_round (off + sc * (1 / 10)) 3, py_round (off + sc) 3]"
    using True t ev by (simp add: transcribe_audio_def Let_def)
  have "sc * (1 / 10) \<le> sc" using sc by simp
  then have 1: "py_round (off + sc * (1 / 10)) 3 \<le> py_round (off + sc) 3"
    by (intro py_round_mono) simp
  have "0 \<le> sc * (1 / 10)" using sc by simp
  then have 2: "py_round off 3 \<le> py_round (off + sc * (1 / 10)) 3"
    by (intro py_round_mono) simp
  show ?thesis unfolding pv using 1 2 by (simp add: rising_within_def)
next
  case False
  show ?thesis
  proof (cases "py_range (py_len a) ((cd - co) * sr)")
    case (Inl err)
    then have "snd (snd (transcribe_audio a sr model off sc cd co n)) = []"
      using False by (simp add: transcribe_audio_def Let_def)
    then show ?thesis by simp
  next
    case (Inr starts)
    define cs where "cs = chunk_bounds sr (cd * sr) (py_len a) starts"
    have "snd (snd (transcribe_audio a sr model off sc cd co n))
        = snd (snd (snd (transcribe_chunks model a sr off sc (length cs) 0 cs n)))"
      using False Inr by (simp add: transcribe_audio_def Let_def cs_def split: prod.splits)
    then have "progress_values (snd (snd (transcribe_audio a sr model off sc cd co n)))
        = map (\<lambda>j. py_round (off + sc * (of_nat (j + 1) / of_nat (length cs))) 3)
            [0 ..< length cs]"
      by (simp add: progress_values_transcribe_chunks)
    then show ?thesis using rising_within_linear [OF sc order_refl] by simp
  qed
qed

lemma py_round_consts:
  "py_round (1 / 100) 3 = 1 / 100" "py_round (3 / 100) 3 = 3 / 100"
  "py_round (1 / 20) 3 = 1 / 20" "py_round (13 / 100) 3 = 13 / 100"
  "py_round (7 / 50) 3 = 7 / 50" "py_round (7 / 20) 3 = 7 / 20"
  "py_round (19 / 20) 3 = 19 / 20" "py_round (93 / 100) 3 = 93 / 100"
  "py_round 1 3 = 1"
  by code_simp+

lemma model_heartbeat_progress:
  "p \<le> 13 / 100 \<Longrightarrow>
     rising_within (py_round p 3) (13 / 100) (progress_values (model_heartbeat k p))"
proof (induction k arbitrary: p)
  case 0
  show ?case by simp
next
  case (Suc k)
  define p' where "p' = min (p + 8 / 1000) (13 / 100)"
  have p': "p \<le> p'" "p' \<le> 13 / 100" using Suc.prems unfolding p'_def by linarith+
  have IH: "rising_within (py_round p' 3) (13 / 100) (progress_values (model_heartbeat k p'))"
    using Suc.IH [OF p'(2)] .
  have lo: "py_round p 3 \<le> py_round p' 3" using p'(1) by (rule py_round_mono)
  have hi: "py_round p' 3 \<le> 13 / 100"
    using py_round_mono [OF p'(2), of 3] by (simp add: py_round_consts)
  have "rising_within (py_round p 3) (13 / 100)
          ([py_round p' 3] @ progress_values (model_heartbeat k p'))"
    by (rule rising_within_append [OF rising_within_single [OF lo order_refl] IH lo order_refl hi])
  then show ?case by (simp add: Let_def p'_def)
qed

lemma progress_values_transcribe_parts [simp]:
  "progress_values (snd (snd (transcribe_parts model a sr cs starts n))) = []"
proof (induction starts arbitrary: n)
  case Nil
  show ?case by simp
next
  case (Cons c starts)
  define chunk where "chunk = py_slice a c (c + cs)"
  obtain tx n1 ev1 where t: "transcribe_chunk model chunk sr n = (tx, n1, ev1)"
    by (cases "transcribe_chunk model chunk sr n")
  have ev1: "progress_values ev1 = []"
    using progress_values_transcribe_chunk [of model chunk sr n] t by simp
  obtain parts n2 ev2 where r: "transcribe_parts model a sr cs starts n1 = (parts, n2, ev2)"
    by (cases "transcribe_parts model a sr cs starts n1")
  have "progress_values ev2 = []" using Cons.IH [of n1] r by simp
  then show ?case using t r ev1 by (simp add: Let_def chunk_def [symmetric])
qed

lemma progress_values_transcribe_tail [simp]:
  "progress_values (snd (snd (transcribe_tail model a sr cs le starts n))) = []"
proof (induction starts arbitrary: n)
  case Nil
  show ?case by simp
next
  case (Cons c starts)
  define chunk where "chunk = py_slice a c (c + cs)"
  obtain tx n1 ev1 where t: "transcribe_chunk model chunk sr n = (tx, n1, ev1)"
    by (cases "transcribe_chunk model chunk sr n")
  have ev1: "progress_values ev1 = []"
    using progress_values_transcribe_chunk [of model chunk sr n] t by simp
  obtain parts n2 ev2 where r: "transcribe_tail model a sr cs le starts n1 = (parts, n2, ev2)"
    by (cases "transcribe_tail model a sr cs le starts n1")
  have "progress_values ev2 = []" using Cons.IH [of n1] r by simp
  then show ?case using t r ev1 by (simp add: Let_def chunk_def [symmetric])
qed

lemma progress_values_first_pass [simp]:
  "progress_values (snd (snd (first_pass model a sr cd co seg n))) = []"
proof -
  define sa where "sa = py_slice a (start_sample_of sr seg) (end_sample_of sr seg)"
  show ?thesis
  proof (cases "of_int (cd - co) < span_duration sr seg")
    case True
    show ?thesis
    proof (cases "py_range (py_len sa) ((cd - co) * sr)")
      case (Inl e)
      then show ?thesis using True by (simp add: first_pass_def Let_def sa_def)
    next
      case (Inr starts)
      obtain parts n1 ev where r:
        "transcribe_parts model sa sr (cd * sr) starts n = (parts, n1, ev)"
        by (cases "transcribe_parts model sa sr (cd * sr) starts n")
      have "progress_values ev = []"
        using progress_values_transcribe_parts [of model sa sr "cd * sr" starts n] r by simp
      then show ?thesis
        using True Inr r by (simp add: first_pass_def Let_def sa_def [symmetric])
    qed
  next
    case False
    obtain tx n1 ev where t: "transcribe_chunk model sa sr n = (tx, n1, ev)"
      by (cases "transcribe_chunk model sa sr n")
    have "progress_values ev = []"
      using progress_values_transcribe_chunk [of model sa sr n] t by simp
    then show ?thesis
      using False t by (simp add: first_pass_def Let_def sa_def [symmetric])
  qed
qed

lemma progress_values_turn_text [simp]:
  "progress_values (snd (snd (turn_text model a sr cd co pad seg n))) = []"
proof -
  obtain r n1 ev1 where fp: "first_pass model a sr cd co seg n = (r, n1, ev1)"
    by (cases "first_pass model a sr cd co seg n")
  have ev1: "progress_values ev1 = []"
    using progress_values_first_pass [of model a sr cd co seg n] fp by simp
  obtain tx n2 ev2 where t:
    "transcribe_chunk model (expanded_span a sr pad seg) sr n1 = (tx, n2, ev2)"
    by (cases "transcribe_chunk model (expanded_span a sr pad seg) sr n1")
  have ev2: "progress_values ev2 = []"
    using progress_values_transcribe_chunk [of model "expanded_span a sr pad seg" sr n1] t
    by simp
  show ?thesis
    using fp t ev1 ev2 by (cases r) (simp_all add: turn_text_def)
qed

lemma progress_values_transcribe_turn:
  "progress_values (snd (snd (transcribe_turn model a sr cd co pad tot i seg n)))
     = (case fst (transcribe_turn model a sr cd co pad tot i seg n) of
          Inl e \<Rightarrow> []
        | Inr r \<Rightarrow> [py_round (35 / 100 + 6 / 10 * (of_nat (i + 1) / of_nat tot)) 3])"
proof -
  obtain r n1 ev where tt: "turn_text model a sr cd co pad seg n = (r, n1, ev)"
    by (cases "turn_text model a sr cd co pad seg n")
  have ev: "progress_values ev = []"
    using progress_values_turn_text [of model a sr cd co pad seg n] tt by simp
  show ?thesis
    using tt ev by (cases r) (simp_all add: transcribe_turn_def Let_def)
qed

lemma turn_progress_step:
  assumes "i < tot"
  shows "py_round (35 / 100 + 6 / 10 * (of_nat i / of_nat tot)) 3
           \<le> py_round (35 / 100 + 6 / 10 * (of_nat (i + 1) / of_nat tot)) 3"
    and "py_round (35 / 100 + 6 / 10 * (of_nat (i + 1) / of_nat tot)) 3 \<le> 19 / 20"
proof -
  have "(of_nat i :: rat) / of_nat tot \<le> of_nat (i + 1) / of_nat tot"
    by (intro divide_right_mono) simp_all
  then have "(6 / 10 :: rat) * (of_nat i / of_nat tot) \<le> 6 / 10 * (of_nat (i + 1) / of_nat tot)"
    by (intro mult_left_mono) simp_all
  then have "(35 / 100 :: rat) + 6 / 10 * (of_nat i / of_nat tot)
               \<le> 35 / 100 + 6 / 10 * (of_nat (i + 1) / of_nat tot)"
    by (rule add_left_mono)
  then show "py_round (35 / 100 + 6 / 10 * (of_nat i / of_nat tot)) 3
           \<le> py_round (35 / 100 + 6 / 10 * (of_nat (i + 1) / of_nat tot)) 3"
    by (rule py_round_mono)
  have "(of_nat (i + 1) :: rat) \<le> of_nat tot" using assms by simp
  moreover have "(0::rat) < of_nat tot" using assms by simp
  ultimately have "(of_nat (i + 1) :: rat) / of_nat tot \<le> 1" by (simp add: pos_divide_le_eq)
  then have "(6 / 10 :: rat) * (of_nat (i + 1) / of_nat tot) \<le> 6 / 10 * 1"
    by (intro mult_left_mono) simp_all
  then have "(35 / 100 :: rat) + 6 / 10 * (of_nat (i + 1) / of_nat tot) \<le> 19 / 20"
    by linarith
  then have "py_round (35 / 100 + 6 / 10 * (of_nat (i + 1) / of_nat tot)) 3 \<le> py_round (19 / 20) 3"
    by (rule py_round_mono)
  then show "py_round (35 / 100 + 6 / 10 * (of_nat (i + 1) / of_nat tot)) 3 \<le> 19 / 20"
    by (simp add: py_round_consts)
qed

lemma transcribe_turns_progress:
  "i + length turns \<le> tot \<Longrightarrow>
     rising_within (py_round (35 / 100 + 6 / 10 * (of_nat i / of_nat tot)) 3) (19 / 20)
       (progress_values (snd (snd (transcribe_turns model a sr cd co pad tot i turns n))))"
proof (induction turns arbitrary: i n)
  case Nil
  show ?case by simp
next
  case (Cons seg turns)
  let ?L = "\<lambda>j. py_round (35 / 100 + 6 / 10 * (of_nat j / of_nat tot)) 3"
  have i: "i < tot" using Cons.prems by simp
  note st = turn_progress_step [OF i]
  obtain r n1 ev1 where t: "transcribe_turn model a sr cd co pad tot i seg n = (r, n1, ev1)"
    by (cases "transcribe_turn model a sr cd co pad tot i seg n")
  have ev1: "progress_values ev1 = (case r of Inl e \<Rightarrow> [] | Inr x \<Rightarrow> [?L (i + 1)])"
    using progress_values_transcribe_turn [of model a sr cd co pad tot i seg n] t by simp
  show ?case
  proof (cases r)
    case (Inl e)
    then show ?thesis using t ev1 by simp
  next
    case (Inr x)
    obtain r2 n2 ev2 where r2:
      "transcribe_turns model a sr cd co pad tot (i + 1) turns n1 = (r2, n2, ev2)"
      by (cases "transcribe_turns model a sr cd co pad tot (i + 1) turns n1")
    have IH: "rising_within (?L (i + 1)) (19 / 20) (progress_values ev2)"
      using Cons.IH [of "i + 1" n1] Cons.prems r2 by simp
    have ev: "snd (snd (transcribe_turns model a sr cd co pad tot i (seg # turns) n)) = ev1 @ ev2"
      using t Inr r2 by (cases r2) simp_all
    have "rising_within (?L i) (19 / 20) ([?L (i + 1)] @ progress_values ev2)"
      by (rule rising_within_append
            [OF rising_within_single [OF st(1) order_refl] IH st(1) order_refl st(2)])
    then show ?thesis unfolding ev using ev1 Inr by simp
  qed
qed

lemma tail_fallback_progress:
  "progress_values (snd (snd (tail_fallback model a sr cd co turns n))) = []
   \<or> progress_values (snd (snd (tail_fallback model a sr cd co turns n))) = [19 / 20]"
proof (cases "10 < tail_gap_of a sr turns")
  case False
  then show ?thesis by (simp add: tail_fallback_def)
next
  case True
  define tail where
    "tail = py_slice_from a (py_int (fmul (last_diar_end_of turns) (float_of_int sr)))"
  show ?thesis
  proof (cases "py_range (py_len tail) ((cd - co) * sr)")
    case (Inl e)
    then show ?thesis
      using True by (simp add: tail_fallback_def Let_def tail_def py_round_consts)
  next
    case (Inr starts)
    obtain app n1 ev where r:
      "transcribe_tail model tail sr (cd * sr) (last_diar_end_of turns) starts n = (app, n1, ev)"
      by (cases "transcribe_tail model tail sr (cd * sr) (last_diar_end_of turns) starts n")
    have "progress_values ev = []"
      using progress_values_transcribe_tail
              [of model tail sr "cd * sr" "last_diar_end_of turns" starts n] r
      by simp
    then show ?thesis
      using True Inr r
      by (simp add: tail_fallback_def Let_def tail_def [symmetric] py_round_consts)
  qed
qed

lemma py_round_consts2:
  "py_round (4 / 25) 3 = 4 / 25" "py_round (3 / 20) 3 = 3 / 20"
  "py_round (3 / 20 + 39 / 50) 3 = 93 / 100"
  by code_simp+

lemma twd_progress_head:
  "\<exists>rest. progress_values
            (snd (snd (transcribe_with_diarization outcome a sr model cd co gap minseg pad n)))
          = 4 / 25 # rest"
proof (cases "diarize outcome gap minseg")
  case (Inl e)
  then show ?thesis by (simp add: transcribe_with_diarization_def py_round_consts2)
next
  case (Inr turns)
  obtain r n1 ev1 where t:
    "transcribe_turns model a sr cd co pad (length turns) 0 turns n = (r, n1, ev1)"
    by (cases "transcribe_turns model a sr cd co pad (length turns) 0 turns n")
  obtain r2 n2 ev2 where f: "tail_fallback model a sr cd co turns n1 = (r2, n2, ev2)"
    by (cases "tail_fallback model a sr cd co turns n1")
  show ?thesis
    using Inr t f
    by (cases r; cases r2)
      (simp_all add: transcribe_with_diarization_def Let_def py_round_consts2)
qed

lemma twd_progress_success:
  assumes "fst (transcribe_with_diarization outcome a sr model cd co gap minseg pad n) = Inr res"
  shows "rising_within (4 / 25) (19 / 20)
           (progress_values
              (snd (snd (transcribe_with_diarization outcome a sr model cd co gap minseg pad n))))"
proof (cases "diarize outcome gap minseg")
  case (Inl e)
  then show ?thesis using assms by (simp add: transcribe_with_diarization_def)
next
  case (Inr turns)
  obtain r n1 ev1 where t:
    "transcribe_turns model a sr cd co pad (length turns) 0 turns n = (r, n1, ev1)"
    by (cases "transcribe_turns model a sr cd co pad (length turns) 0 turns n")
  obtain r2 n2 ev2 where f: "tail_fallback model a sr cd co turns n1 = (r2, n2, ev2)"
    by (cases "tail_fallback model a sr cd co turns n1")
  have "rising_within (py_round (35 / 100 + 6 / 10 * (of_nat 0 / of_nat (length turns))) 3)
          (19 / 20) (progress_values ev1)"
    using transcribe_turns_progress [of 0 turns "length turns" model a sr cd co pad n] t by simp
  then have p1: "rising_within (7 / 20) (19 / 20) (progress_values ev1)"
    by (simp add: py_round_consts)
  have p2: "rising_within (19 / 20) (19 / 20) (progress_values ev2)"
    using tail_fallback_progress [of model a sr cd co turns n1] f
    by (auto simp: rising_within_def)
  have p12: "rising_within (7 / 20) (19 / 20) (progress_values ev1 @ progress_values ev2)"
    by (rule rising_within_append [OF p1 p2]) simp_all
  have p0: "rising_within (4 / 25) (7 / 20) [4 / 25, 7 / 20]"
    by (simp add: rising_within_def)
  have all: "rising_within (4 / 25) (19 / 20)
               ([4 / 25, 7 / 20] @ progress_values ev1 @ progress_values ev2)"
    by (rule rising_within_append [OF p0 p12]) simp_all
  have "snd (snd (transcribe_with_diarization outcome a sr model cd co gap minseg pad n))
          = [report_progress (16 / 100) ''diarizing'', report_progress (35 / 100) ''diarizing'']
            @ ev1 @ ev2"
    using assms Inr t f
    by (cases r; cases r2) (simp_all add: transcribe_with_diarization_def Let_def)
  then show ?thesis using all by (simp add: py_round_consts py_round_consts2)
qed

lemma not_sorted_later_smaller:
  "(b::rat) < a \<Longrightarrow> \<not> sorted (xs @ (a # ys) @ (b # zs))"
  by (auto simp: sorted_append)

lemma heartbeat_prefix_progress:
  "rising_within (1 / 100) (7 / 50)
     (progress_values
        ([report_progress (1 / 100) ''preparing'', report_progress (3 / 100) ''preparing'',
          report_progress (5 / 100) ''loading_model'']
         @ model_heartbeat ticks (5 / 100)
         @ [report_progress (14 / 100) ''loading_model'']))"
proof -
  have a: "rising_within (1 / 100) (1 / 20) [1 / 100, 3 / 100, 1 / 20]"
    by (simp add: rising_within_def)
  have "rising_within (py_round (5 / 100) 3) (13 / 100)
          (progress_values (model_heartbeat ticks (5 / 100)))"
    by (rule model_heartbeat_progress) simp
  then have b: "rising_within (1 / 20) (13 / 100) (progress_values (model_heartbeat ticks (1 / 20)))"
    by (simp add: py_round_consts)
  have c: "rising_within (7 / 50) (7 / 50) [7 / 50]" by (simp add: rising_within_def)
  have bc: "rising_within (1 / 20) (7 / 50)
              (progress_values (model_heartbeat ticks (1 / 20)) @ [7 / 50])"
    by (rule rising_within_append [OF b c]) simp_all
  have "rising_within (1 / 100) (7 / 50)
          ([1 / 100, 3 / 100, 1 / 20] @ progress_values (model_heartbeat ticks (1 / 20)) @ [7 / 50])"
    by (rule rising_within_append [OF a bc]) simp_all
  then show ?thesis by (simp add: py_round_consts)
qed

lemma progress_values_report_warnings_summary [simp]:
  "progress_values (report_warnings_summary evs) = []"
  by (simp add: report_warnings_summary_def Let_def)

theorem progress_sorted_iff_no_fallback:
  "sorted (progress_values (snd (main flag outcome a sr model ticks cd co gap minseg pad)))
   \<longleftrightarrow> \<not> (flag \<and> (\<exists>e. fst (transcribe_with_diarization outcome a sr model cd co gap minseg
                                  pad 0) = Inl e))"
proof -
  define ev0 where "ev0 = [report_progress (1 / 100) ''preparing'',
                 report_progress (3 / 100) ''preparing'',
                 report_progress (5 / 100) ''loading_model'']
                @ model_heartbeat ticks (5 / 100)
                @ [report_progress (14 / 100) ''loading_model'']"
  have p0: "rising_within (1 / 100) (7 / 50) (progress_values ev0)"
    unfolding ev0_def by (rule heartbeat_prefix_progress)
  define closing where "closing = (\<lambda>(res :: py_error + unit) evs.
      case res of Inl e \<Rightarrow> [Error e]
      | Inr x \<Rightarrow> [report_progress (95 / 100) ''saving'']
                 @ report_warnings_summary evs @ [report_progress 1 ''complete''])"
  define finish where "finish = (\<lambda>res ev1. ev0 @ ev1 @ closing res (ev0 @ ev1))"
  have fin: "rising_within (19 / 20) 1 (progress_values (closing res evs))" for res evs
    by (cases res) (simp_all add: closing_def rising_within_def py_round_consts)
  have good: "sorted (progress_values (finish res ev1))"
    if "rising_within lo hi (progress_values ev1)" "7 / 50 \<le> lo" "lo \<le> hi" "hi \<le> 19 / 20"
    for res ev1 lo hi
  proof -
    have a: "rising_within lo 1 (progress_values ev1
                @ progress_values (closing res (ev0 @ ev1)))"
      by (rule rising_within_append [OF that(1) fin that(3,4)]) simp
    have "rising_within (1 / 100) 1 (progress_values ev0 @ progress_values ev1
                @ progress_values (closing res (ev0 @ ev1)))"
      by (rule rising_within_append [OF p0 a _ that(2)]) (use that in simp_all)
    then show ?thesis by (simp add: rising_within_def finish_def)
  qed
  show ?thesis
  proof (cases flag)
    case False
    obtain r n1 ev where ta:
      "transcribe_audio a sr model (15 / 100) (78 / 100) cd co 0 = (r, n1, ev)"
      by (cases "transcribe_audio a sr model (15 / 100) (78 / 100) cd co 0")
    have m: "snd (main flag outcome a sr model ticks cd co gap minseg pad)
               = finish (map_sum id (\<lambda>_. ()) r) (report_progress (15 / 100) ''transcribing'' # ev)"
      using False ta
      by (cases r) (simp_all add: main_def Let_def ev0_def finish_def closing_def)
    have "rising_within (py_round (15 / 100) 3) (py_round (15 / 100 + 78 / 100) 3)
            (progress_values (snd (snd (transcribe_audio a sr model (15 / 100) (78 / 100) cd co 0))))"
      by (rule transcribe_audio_progress) simp
    then have pa: "rising_within (3 / 20) (93 / 100) (progress_values ev)"
      using ta by (simp add: py_round_consts py_round_consts2)
    have one: "rising_within (3 / 20) (3 / 20) [3 / 20]" by (simp add: rising_within_def)
    have "rising_within (3 / 20) (93 / 100) ([3 / 20] @ progress_values ev)"
      by (rule rising_within_append [OF one pa]) simp_all
    then have "rising_within (3 / 20) (93 / 100)
                 (progress_values (report_progress (15 / 100) ''transcribing'' # ev))"
      by (simp add: py_round_consts2)
    then have "sorted (progress_values
                 (finish (map_sum id (\<lambda>_. ()) r) (report_progress (15 / 100) ''transcribing'' # ev)))"
      by (rule good) simp_all
    then show ?thesis using False m by simp
  next
    case True
    obtain r n1 ev where tw:
      "transcribe_with_diarization outcome a sr model cd co gap minseg pad 0 = (r, n1, ev)"
      by (cases "transcribe_with_diarization outcome a sr model cd co gap minseg pad 0")
    show ?thesis
    proof (cases r)
      case (Inr res)
      have m: "snd (main flag outcome a sr model ticks cd co gap minseg pad) = finish (Inr ()) ev"
        using True tw Inr by (simp add: main_def Let_def ev0_def finish_def closing_def)
      have "rising_within (4 / 25) (19 / 20) (progress_values ev)"
        using twd_progress_success [of outcome a sr model cd co gap minseg pad 0 res] tw Inr
        by simp
      then have "sorted (progress_values (finish (Inr ()) ev))"
        by (rule good) simp_all
      then show ?thesis using m tw Inr by simp
    next
      case (Inl e)
      obtain r2 n2 ev2 where ta:
        "transcribe_audio a sr model (15 / 100) (78 / 100) cd co n1 = (r2, n2, ev2)"
        by (cases "transcribe_audio a sr model (15 / 100) (78 / 100) cd co n1")
      obtain rest where hd: "progress_values ev = 4 / 25 # rest"
        using twd_progress_head [of outcome a sr model cd co gap minseg pad 0] tw by auto
      have m: "snd (main flag outcome a sr model ticks cd co gap minseg pad)
                 = finish (map_sum id (\<lambda>_. ()) r2)
                     (ev @ [Warning (DiarizationUnavailable e),
                            report_progress (15 / 100) ''transcribing''] @ ev2)"
        using True tw Inl ta
        by (cases r2) (simp_all add: main_def Let_def ev0_def finish_def closing_def)
      define ev1 where "ev1 = ev @ [Warning (DiarizationUnavailable e),
                            report_progress (15 / 100) ''transcribing''] @ ev2"
      have "progress_values (finish (map_sum id (\<lambda>_. ()) r2) ev1)
              = progress_values ev0 @ (4 / 25 # rest)
                @ (3 / 20 # progress_values ev2
                   @ progress_values (closing (map_sum id (\<lambda>_. ()) r2) (ev0 @ ev1)))"
        by (simp add: finish_def ev1_def hd py_round_consts2)
      moreover have "\<not> sorted (progress_values ev0 @ (4 / 25 # rest)
                @ (3 / 20 # progress_values ev2
                   @ progress_values (closing (map_sum id (\<lambda>_. ()) r2) (ev0 @ ev1))))"
        by (rule not_sorted_later_smaller) simp
      ultimately have "\<not> sorted (progress_values (finish (map_sum id (\<lambda>_. ()) r2) ev1))"
        by simp
      then show ?thesis using True m tw Inl by (simp add: ev1_def)
    qed
  qed
qed

text \<open>
  Claim C8. Within one run the progress values are non-decreasing, also when diarization
  fails after the diarizing stage has begun. The code does not keep this on that path:
  for every input, when the diarization collaborator fails, \<open>main\<close> emits 0.16 for the
  diarizing stage and then 0.15 for the fallback, so the sequence of progress values is not
  sorted.
\<close>

theorem fallback_progress_regresses:
  "\<exists>before after.
     progress_values (snd (main True (Inl msg) audio sr model ticks cd co gap minseg pad))
       = before @ [16 / 100, 15 / 100] @ after
   \<and> \<not> sorted (progress_values
                  (snd (main True (Inl msg) audio sr model ticks cd co gap minseg pad)))"
proof -
  define ev0 where "ev0 = [report_progress (1 / 100) ''preparing'',
                 report_progress (3 / 100) ''preparing'',
                 report_progress (5 / 100) ''loading_model'']
                @ model_heartbeat ticks (5 / 100)
                @ [report_progress (14 / 100) ''loading_model'']"
  obtain r n2 ev2 where ta:
    "transcribe_audio audio sr model (15 / 100) (78 / 100) cd co 0 = (r, n2, ev2)"
    by (cases "transcribe_audio audio sr model (15 / 100) (78 / 100) cd co 0")
  have twd: "transcribe_with_diarization (Inl msg) audio sr model cd co gap minseg pad 0
               = (Inl (DiarizationError msg), 0, [report_progress (16 / 100) ''diarizing''])"
    by (simp add: transcribe_with_diarization_def diarize_def)
  define rest where "rest = (case r of
       Inl e \<Rightarrow> [Error e]
     | Inr x \<Rightarrow> [report_progress (95 / 100) ''saving'']
         @ report_warnings_summary
             (ev0 @ [report_progress (16 / 100) ''diarizing'',
                     Warning (DiarizationUnavailable (DiarizationError msg)),
                     report_progress (15 / 100) ''transcribing''] @ ev2)
         @ [report_progress 1 ''complete''])"
  have m: "snd (main True (Inl msg) audio sr model ticks cd co gap minseg pad)
       = ev0 @ [report_progress (16 / 100) ''diarizing'',
                Warning (DiarizationUnavailable (DiarizationError msg)),
                report_progress (15 / 100) ''transcribing''] @ ev2 @ rest"
    using ta twd
    by (cases r) (simp_all add: main_def Let_def ev0_def rest_def)
  have pv: "progress_values (snd (main True (Inl msg) audio sr model ticks cd co gap minseg pad))
       = progress_values ev0 @ [16 / 100, 15 / 100] @ progress_values (ev2 @ rest)"
    unfolding m by (simp add: py_round_16 py_round_15)
  have "\<not> sorted (progress_values ev0 @ (16 / 100 :: rat) # 15 / 100 # progress_values (ev2 @ rest))"
    by (rule not_sorted_drop) simp
  then show ?thesis using pv by auto
qed

section \<open>SRT timestamps\<close>

text \<open>
  Below the rollover the formatter is right: a time \<open>t \<ge> 0\<close> whose fraction is below
  0.9995 is rendered as \<open>HH:MM:SS,mmm\<close> and read back to within half a millisecond, and
  a time with two decimals, as produced by \<open>round(x, 2)\<close>, is read back exactly.
\<close>

lemma digit_val_digit_char: "d < 10 \<Longrightarrow> digit_val (digit_char d) = Some d"
  by (simp add: digit_val_def digit_char_def)

lemma parse_digits_append:
  "parse_digits acc (xs @ ys) =
     (case parse_digits acc xs of None \<Rightarrow> None | Some a \<Rightarrow> parse_digits a ys)"
  by (induction xs arbitrary: acc) (auto split: option.splits)

lemma parse_digits_digits10:
  "parse_digits acc (digits10 n) = Some (acc * 10 ^ length (digits10 n) + n)"
proof (induction n arbitrary: acc rule: digits10.induct)
  case (1 n)
  show ?case
  proof (cases "n < 10")
    case True
    then show ?thesis
      by (simp add: digits10.simps [of n] digit_val_digit_char)
  next
    case False
    have d: "digit_val (digit_char (n mod 10)) = Some (n mod 10)"
      by (simp add: digit_val_digit_char)
    have "parse_digits acc (digits10 n)
            = parse_digits (acc * 10 ^ length (digits10 (n div 10)) + n div 10)
                [digit_char (n mod 10)]"
      using False "1.IH" [of acc]
      by (simp add: digits10.simps [of n] parse_digits_append)
    also have "\<dots> = Some (10 * (acc * 10 ^ length (digits10 (n div 10)) + n div 10) + n mod 10)"
      by (simp add: d)
    also have "\<dots> = Some (acc * 10 ^ length (digits10 n) + n)"
      using False by (simp add: digits10.simps [of n] algebra_simps)
    finally show ?thesis .
  qed
qed

lemma parse_digits_zeros:
  "parse_digits acc (replicate k (CHR ''0'') @ ds) = parse_digits (acc * 10 ^ k) ds"
  by (induction k arbitrary: acc) (simp_all add: digit_val_def algebra_simps)

lemma parse_digits_format_0d:
  "0 \<le> i \<Longrightarrow> parse_digits 0 (format_0d w i) = Some (nat i)"
  by (simp add: format_0d_def Let_def parse_digits_zeros parse_digits_digits10)

lemma length_digits10_pos: "0 < length (digits10 n)"
  by (subst digits10.simps) simp

lemma length_digits10_1: "n < 10 \<Longrightarrow> length (digits10 n) = 1"
  by (simp add: digits10.simps [of n])

lemma length_digits10_2: "n < 100 \<Longrightarrow> length (digits10 n) \<le> 2"
proof -
  assume n: "n < 100"
  show ?thesis
  proof (cases "n < 10")
    case True
    then show ?thesis by (simp add: length_digits10_1)
  next
    case False
    have "n div 10 < 10" using n by simp
    then have "length (digits10 (n div 10)) = 1" by (rule length_digits10_1)
    then show ?thesis using False by (simp add: digits10.simps [of n])
  qed
qed

lemma length_digits10_3: "n < 1000 \<Longrightarrow> length (digits10 n) \<le> 3"
proof -
  assume n: "n < 1000"
  show ?thesis
  proof (cases "n < 10")
    case True
    then show ?thesis by (simp add: digits10.simps [of n])
  next
    case False
    have "n div 10 < 100" using n by simp
    then have "length (digits10 (n div 10)) \<le> 2" by (rule length_digits10_2)
    then show ?thesis using False by (simp add: digits10.simps [of n])
  qed
qed

lemma length_format_0d:
  "0 \<le> i \<Longrightarrow> length (format_0d w i) = max w (length (digits10 (nat i)))"
  by (auto simp: format_0d_def Let_def)

lemma length_format_2: "0 \<le> i \<Longrightarrow> i < 100 \<Longrightarrow> length (format_0d 2 i) = 2"
  using length_digits10_2 [of "nat i"] by (simp add: length_format_0d)

lemma length_format_3: "0 \<le> i \<Longrightarrow> i < 1000 \<Longrightarrow> length (format_0d 3 i) = 3"
  using length_digits10_3 [of "nat i"] by (simp add: length_format_0d)

lemma length_format_ge_2: "0 \<le> i \<Longrightarrow> 2 \<le> length (format_0d 2 i)"
  by (simp add: length_format_0d)

lemma parse_ts_srt_fields:
  assumes "2 \<le> length hh" "length mm = 2" "length ss = 2" "length fff = 3"
    and "parse_digits 0 hh = Some h" "parse_digits 0 mm = Some m"
    and "parse_digits 0 ss = Some s" "parse_digits 0 fff = Some ms"
  shows "parse_ts_srt (hh @ '':'' @ mm @ '':'' @ ss @ '','' @ fff)
           = Some (of_nat h * 3600 + of_nat m * 60 + of_nat s + of_nat ms / 1000)"
proof -
  obtain m1 m2 where mm: "mm = [m1, m2]"
    using assms(2) by (cases mm; cases "tl mm") auto
  obtain s1 s2 where ss: "ss = [s1, s2]"
    using assms(3) by (cases ss; cases "tl ss") auto
  obtain f1 f2 f3 where fff: "fff = [f1, f2, f3]"
    using assms(4) by (cases fff; cases "tl fff"; cases "tl (tl fff)") auto
  obtain h2 h1 hs where hh: "rev hh = h2 # h1 # hs"
    using assms(1) by (cases "rev hh"; cases "tl (rev hh)") auto
  then have hh': "rev hs @ [h1, h2] = hh"
    by (metis append.assoc append_Cons append_Nil rev.simps(2) rev_rev_ident)
  show ?thesis
    using assms(5-8) unfolding mm ss fff
    by (simp add: parse_ts_srt_def hh hh')
qed

lemma floor_divide_rat_eq_div:
  assumes "0 < k"
  shows "\<lfloor>x / of_int k\<rfloor> = \<lfloor>x :: rat\<rfloor> div k"
proof (rule floor_unique)
  define f where "f = \<lfloor>x\<rfloor>"
  have f: "of_int f \<le> x" "x < of_int f + 1" unfolding f_def by linarith+
  have k: "(0::rat) < of_int k" using assms by simp
  have "f div k * k + f mod k = f" by simp
  moreover have "0 \<le> f mod k" using assms by simp
  ultimately have "f div k * k \<le> f" by linarith
  then have "(of_int (f div k * k) :: rat) \<le> of_int f" by (simp only: of_int_le_iff)
  then have "of_int (f div k) * of_int k \<le> x" using f(1) by simp
  then show "of_int (f div k) \<le> x / of_int k"
    using k by (simp add: pos_le_divide_eq)
  have "f < (f div k + 1) * k"
    using assms by (metis add.commute div_mult_mod_eq distrib_right mult.commute mult_1
        add_less_cancel_left pos_mod_bound)
  then have "f + 1 \<le> (f div k + 1) * k" by simp
  then have "(of_int (f + 1) :: rat) \<le> of_int ((f div k + 1) * k)" by (simp only: of_int_le_iff)
  then have "x < (of_int (f div k) + 1) * of_int k" using f(2) by simp
  then show "x / of_int k < of_int (f div k) + 1"
    using k by (simp add: pos_divide_less_eq)
qed

lemma py_int_of_int [simp]: "py_int (of_int k) = k"
  by (simp add: py_int_def)

lemma srt_fields:
  assumes t: "0 \<le> t"
  defines "n \<equiv> \<lfloor>t\<rfloor>"
  shows "py_int (py_floordiv t 3600) = n div 3600"
    and "py_int (py_floordiv (py_mod t 3600) 60) = (n mod 3600) div 60"
    and "py_int (py_mod t 60) = n mod 60"
    and "py_int t = n"
proof -
  have n: "0 \<le> n" using t by (simp add: n_def)
  have d3600: "\<lfloor>t / 3600\<rfloor> = n div 3600"
    using floor_divide_rat_eq_div [of 3600 t] by (simp add: n_def)
  have d60: "\<lfloor>t / 60\<rfloor> = n div 60"
    using floor_divide_rat_eq_div [of 60 t] by (simp add: n_def)
  show "py_int (py_floordiv t 3600) = n div 3600"
    by (simp add: py_floordiv_def d3600)
  have m: "py_mod t 3600 = t - of_int (3600 * (n div 3600))"
    by (simp add: py_mod_def d3600)
  have "\<lfloor>py_mod t 3600\<rfloor> = n - 3600 * (n div 3600)"
    unfolding m n_def by (rule floor_diff_of_int)
  also have "\<dots> = n mod 3600" by (simp add: minus_mult_div_eq_mod)
  finally have fm: "\<lfloor>py_mod t 3600\<rfloor> = n mod 3600" .
  show "py_int (py_floordiv (py_mod t 3600) 60) = (n mod 3600) div 60"
    using floor_divide_rat_eq_div [of 60 "py_mod t 3600"]
    by (simp add: py_floordiv_def fm)
  have m60: "py_mod t 60 = t - of_int (60 * (n div 60))"
    by (simp add: py_mod_def d60)
  have "\<lfloor>py_mod t 60\<rfloor> = n - 60 * (n div 60)"
    unfolding m60 n_def by (rule floor_diff_of_int)
  also have "\<dots> = n mod 60" by (simp add: minus_mult_div_eq_mod)
  finally have f60: "\<lfloor>py_mod t 60\<rfloor> = n mod 60" .
  have "0 \<le> py_mod t 60"
  proof -
    have "60 * (n div 60) + n mod 60 = n" by simp
    moreover have "0 \<le> n mod 60" by simp
    ultimately have "60 * (n div 60) \<le> n" by linarith
    then have "of_int (60 * (n div 60)) \<le> (of_int n :: rat)"
      by (simp only: of_int_le_iff)
    moreover have "of_int n \<le> t" unfolding n_def by linarith
    ultimately show ?thesis unfolding m60 by linarith
  qed
  then show "py_int (py_mod t 60) = n mod 60"
    by (simp add: py_int_def f60)
  show "py_int t = n" using t by (simp add: py_int_def n_def)
qed

lemma srt_round_trip_value:
  assumes t: "0 \<le> t" and frac: "t - of_int \<lfloor>t\<rfloor> < 1999 / 2000"
  shows "parse_ts_srt (format_ts_srt t)
           = Some (of_int \<lfloor>t\<rfloor>
                   + of_int (round_half_even ((t - of_int \<lfloor>t\<rfloor>) * 1000)) / 1000)
         \<and> \<bar>of_int \<lfloor>t\<rfloor>
              + of_int (round_half_even ((t - of_int \<lfloor>t\<rfloor>) * 1000)) / 1000 - t\<bar> \<le> 1 / 2000"
proof -
  define n where "n = \<lfloor>t\<rfloor>"
  define h where "h = n div 3600"
  define m where "m = (n mod 3600) div 60"
  define s where "s = n mod 60"
  define ms where "ms = round_half_even ((t - of_int n) * 1000)"
  have n: "0 \<le> n" using t by (simp add: n_def)
  have nt: "of_int n \<le> t" unfolding n_def by linarith
  have h: "0 \<le> h" using n by (simp add: h_def pos_imp_zdiv_nonneg_iff)
  have m: "0 \<le> m" "m < 100"
  proof -
    have "0 \<le> n mod 3600" "n mod 3600 < 3600" by simp_all
    then show "0 \<le> m" "m < 100" unfolding m_def by (simp_all add: pos_imp_zdiv_nonneg_iff)
  qed
  have s: "0 \<le> s" "s < 100"
  proof -
    have "n mod 60 < 60" by simp
    then show "s < 100" unfolding s_def by linarith
    show "0 \<le> s" by (simp add: s_def)
  qed
  have b: "of_int ms \<le> (t - of_int n) * 1000 + 1 / 2"
    "(t - of_int n) * 1000 - 1 / 2 \<le> of_int ms"
    unfolding ms_def by (rule round_half_even_bounds)+
  have "(of_int ms :: rat) < 1000" using b(1) frac by (simp add: n_def)
  then have "(of_int ms :: rat) < of_int 1000" by simp
  then have ms_hi: "ms < 1000" by (simp only: of_int_less_iff)
  have "0 \<le> (t - of_int n) * 1000" using nt by simp
  then have "(- 1 :: rat) < of_int ms" using b(2) by linarith
  then have "(of_int (- 1) :: rat) < of_int ms" by simp
  then have "- 1 < ms" by (simp only: of_int_less_iff)
  then have ms_lo: "0 \<le> ms" by simp
  have fmt: "format_ts_srt t
       = format_0d 2 h @ '':'' @ format_0d 2 m @ '':'' @ format_0d 2 s @ '','' @ format_0d 3 ms"
    using srt_fields [OF t]
    by (simp add: format_ts_srt_def Let_def h_def m_def s_def ms_def n_def)
  have p: "parse_ts_srt (format_ts_srt t)
       = Some (of_nat (nat h) * 3600 + of_nat (nat m) * 60 + of_nat (nat s)
               + of_nat (nat ms) / 1000)"
    unfolding fmt
    by (rule parse_ts_srt_fields)
      (simp_all add: length_format_ge_2 length_format_2 length_format_3 parse_digits_format_0d
        h m s ms_lo ms_hi)
  have "(n mod 3600) mod 60 = n mod 60" by (simp add: mod_mod_cancel)
  then have "m * 60 + s = n mod 3600"
    unfolding m_def s_def by (metis div_mult_mod_eq)
  then have "h * 3600 + m * 60 + s = n"
    unfolding h_def by (metis add.assoc div_mult_mod_eq)
  then have "(of_int (h * 3600 + m * 60 + s) :: rat) = of_int n" by simp
  then have sum: "(of_int h * 3600 + of_int m * 60 + of_int s :: rat) = of_int n" by simp
  have v: "(of_nat (nat h) * 3600 + of_nat (nat m) * 60 + of_nat (nat s)
               + of_nat (nat ms) / 1000 :: rat) = of_int n + of_int ms / 1000"
    using h m(1) s(1) ms_lo sum by simp
  have b': "of_int ms / 1000 \<le> (t - of_int n) + 1 / 2000"
    "(t - of_int n) - 1 / 2000 \<le> of_int ms / (1000 :: rat)"
    using b by (simp_all add: field_simps)
  have "of_int n + of_int ms / 1000 - t \<le> 1 / 2000"
    "- (1 / 2000) \<le> of_int n + of_int ms / 1000 - t"
    using b' by linarith+
  then have "\<bar>of_int n + of_int ms / 1000 - t\<bar> \<le> 1 / 2000"
    by (intro abs_leI) linarith+
  then show ?thesis using p v by (simp add: n_def ms_def)
qed

lemma srt_round_trip:
  assumes "0 \<le> t" and "t - of_int \<lfloor>t\<rfloor> < 1999 / 2000"
  shows "\<exists>v. parse_ts_srt (format_ts_srt t) = Some v \<and> \<bar>v - t\<bar> \<le> 1 / 2000"
  using srt_round_trip_value [OF assms] by blast

lemma srt_round_trip_hundredths:
  assumes k: "0 \<le> k"
  shows "parse_ts_srt (format_ts_srt (of_int k / 100)) = Some (of_int k / 100)"
proof -
  define t :: rat where "t = of_int k / 100"
  have t: "0 \<le> t" using k by (simp add: t_def)
  have fl: "\<lfloor>t\<rfloor> = k div 100"
    unfolding t_def using floor_divide_of_int_eq [of k 100, where ?'a = rat] by simp
  have "of_int k = (of_int (k div 100 * 100 + k mod 100) :: rat)" by simp
  then have kk: "(of_int k :: rat) = of_int (k div 100) * 100 + of_int (k mod 100)"
    by (simp only: of_int_add of_int_mult of_int_numeral)
  have t_eq: "t = of_int (k div 100) + of_int (k mod 100) / 100"
    unfolding t_def by (subst kk) (simp add: add_divide_distrib)
  have fr: "t - of_int \<lfloor>t\<rfloor> = of_int (k mod 100) / 100"
    unfolding fl using t_eq by simp
  have "k mod 100 \<le> 99" by simp
  then have "(of_int (k mod 100) :: rat) \<le> 99" by (metis of_int_le_iff of_int_numeral)
  then have frac: "t - of_int \<lfloor>t\<rfloor> < 1999 / 2000" unfolding fr by simp
  have "(t - of_int \<lfloor>t\<rfloor>) * 1000 = of_int (10 * (k mod 100))"
    unfolding fr by simp
  then have r: "round_half_even ((t - of_int \<lfloor>t\<rfloor>) * 1000) = 10 * (k mod 100)"
    by (simp only: round_half_even_of_int)
  have "parse_ts_srt (format_ts_srt t)
           = Some (of_int \<lfloor>t\<rfloor>
                   + of_int (round_half_even ((t - of_int \<lfloor>t\<rfloor>) * 1000)) / 1000)"
    using srt_round_trip_value [OF t frac] by (rule conjunct1)
  then have "parse_ts_srt (format_ts_srt t)
          = Some (of_int \<lfloor>t\<rfloor> + of_int (10 * (k mod 100)) / 1000)"
    by (simp only: r)
  then have "parse_ts_srt (format_ts_srt t)
          = Some (of_int (k div 100) + of_int (10 * (k mod 100)) / 1000)"
    by (simp only: fl)
  also have "of_int (k div 100) + of_int (10 * (k mod 100)) / 1000 = t"
    using t_eq by simp
  finally show ?thesis by (simp add: t_def)
qed

lemma round_half_even_nonneg: "0 \<le> x \<Longrightarrow> 0 \<le> round_half_even x"
proof -
  assume "0 \<le> x"
  then have "(- 1 :: rat) < of_int (round_half_even x)"
    using round_half_even_bounds(2) [of x] by linarith
  then have "(of_int (- 1) :: rat) < of_int (round_half_even x)" by simp
  then have "- 1 < round_half_even x" by (simp only: of_int_less_iff)
  then show ?thesis by simp
qed

lemma srt_round_trip_rounded:
  assumes "0 \<le> x"
  shows "parse_ts_srt (format_ts_srt (py_round x 2)) = Some (py_round x 2)"
proof -
  have "0 \<le> round_half_even (x * 10 ^ 2)"
    using assms by (intro round_half_even_nonneg) simp
  then show ?thesis
    using srt_round_trip_hundredths [of "round_half_even (x * 10 ^ 2)"]
    by (simp add: py_round_def)
qed

text \<open>
  Claim C9. Rendering a result with the srt formatter and reading the
  \<open>HH:MM:SS,mmm\<close> timestamps back reproduces every start and end to the millisecond.
  The code does not keep this for a time whose fraction rounds up to 1000 milliseconds:
  a one-chunk recording of 15999 samples yields a segment that ends at 15999/16000 s, which
  is rendered with a four-digit millisecond field and cannot be read back.
\<close>

theorem srt_millisecond_rollover:
  "fst (transcribe_audio (0, 15999) 16000 (constant_model ''hi'') (15 / 100) (78 / 100) 20 4 0)
     = Inr (''hi'', [\<lparr>seg_start = 0, seg_end = 15999 / 16000, seg_text = ''hi''\<rparr>])
   \<and> format_ts_srt (15999 / 16000) = ''00:00:00,1000''
   \<and> parse_ts_srt (format_ts_srt (15999 / 16000)) = None
   \<and> format_output_srt
        (map without_speaker [\<lparr>seg_start = 0, seg_end = 15999 / 16000, seg_text = ''hi''\<rparr>]) False
     = join_lines [''1'', ''00:00:00,000 --> 00:00:00,1000'', ''hi'', '''']"
  by code_simp

end
